theory Spec2Isabelle
  imports Main "HOL-Library.Multiset" "HOL-Library.Word"
begin

section \<open>The worker pool as a transition system\<close>

text \<open>
  The pool is concurrent: \<open>NewWorkerPool\<close> starts one goroutine per worker, and
  \<open>Submit\<close> and \<open>Stop\<close> are called from other goroutines. The embedding is an
  interleaving semantics. A state holds the fields of the Go struct, the state of the
  derived context, the control point of every worker goroutine and the history of the
  effects (tasks that returned, hook calls, results of Submit calls). Every operation of
  the source is a function from a state to an outcome: it returns, it panics, or it
  cannot proceed in this state (the caller stays suspended).

  Channels are the channels of the Go runtime. A channel has a buffer of a fixed
  capacity and a queue of the receivers that are blocked on it, in the order in which
  they blocked. A send first looks for a blocked receiver and hands the value to the
  one that has waited longest, whatever the capacity; only when there is none does the
  value go into the buffer, if the buffer has room. A channel made with capacity zero
  has no room, so a send on it proceeds only by such a hand-off. A receive proceeds
  when the buffer is not empty, and at once with \<open>ok = false\<close> when the channel is
  closed and drained. A send on a closed channel and a second \<open>close\<close> panic.

  A task and a hook are opaque \<open>func()\<close> values. A task is a label; running it is the
  time between the worker taking it and the step in which it returns, which the
  environment may never take (a task that loops forever). A task that panics ends the
  whole process and is outside the model.

  Go's \<open>int\<close> is the signed 64-bit integer of the 64-bit platforms: a \<open>64 word\<close>,
  read with \<open>sint\<close>.
\<close>

type_synonym GoInt = "64 word"

type_synonym Task = nat

type_synonym Hook = nat

datatype pool_error = ErrPoolStopped | ErrQueueFull

datatype panic =
    MakechanSizeOutOfRange
  | SendOnClosedChannel
  | CloseOfClosedChannel
  | NegativeWaitGroupCounter

text \<open>
  How construction can end the process: with a panic, or with the runtime's
  \<open>fatal error: out of memory\<close>, which is not a panic and cannot be recovered.
\<close>

datatype failure = Panic panic | FatalOutOfMemory

text \<open>The result of one operation in one state.\<close>

datatype 'a outcome = Blocked | Panics panic | Returns 'a

text \<open>
  Where a worker goroutine stands in \<open>process\<close>: entering the \<open>select\<close>, blocked in
  it (no case was ready), inside \<open>task()\<close>, inside \<open>p.afterTaskHook()\<close>, or returned
  (its deferred \<open>workerWaitGroup.Done()\<close> has run).
\<close>

datatype worker = Selecting | Parked | Running Task | InHook Task | Exited

datatype event =
    Submitted Task "pool_error option"
  | TaskReturned nat Task
  | HookCalled nat Task

text \<open>
  A channel of tasks: the buffer, its capacity, whether it is closed, and the workers
  blocked receiving on it, the longest-blocked first (the runtime's \<open>recvq\<close>).
\<close>

record chan =
  buf :: "Task list"
  capacity :: nat
  closed :: bool
  recvq :: "nat list"

text \<open>
  The struct \<open>WorkerPool\<close>. \<open>mu\<close> is true while a writer holds the lock (only \<open>Stop\<close>
  takes it for writing; readers never hold it across a step, since \<open>Submit\<close> has no
  blocking operation inside its critical section). \<open>workerWaitGroup\<close> is the counter
  of the wait group. \<open>ctxDone\<close> is the state of the context derived by
  \<open>context.WithCancel\<close>, which \<open>cancel\<close> and the parent's cancellation both set.
  \<open>workers\<close> and \<open>history\<close> are the goroutines and the effects so far.
\<close>

record WorkerPool =
  taskQueue :: chan
  workerWaitGroup :: nat
  mu :: bool
  afterTaskHook :: "Hook option"
  isStopped :: bool
  ctxDone :: bool
  workers :: "worker list"
  history :: "event list"

subsection \<open>The platform\<close>

text \<open>
  What \<open>make\<close> and the \<open>go\<close> statement depend on and the repository does not fix:
  the runtime's constants \<open>maxAlloc\<close> and \<open>hchanSize\<close> (on 64-bit Linux \<open>2^48\<close>
  bytes and about a hundred bytes), and whether the memory of the machine holds a given
  number of goroutines next to a channel buffer of a given number of tasks.
\<close>

record platform =
  maxAlloc :: int
  hchanSize :: int
  enoughMemory :: "nat \<Rightarrow> nat \<Rightarrow> bool"

text \<open>A task is a \<open>func()\<close> value, one pointer: eight bytes where \<open>int\<close> has 64 bits.\<close>

definition taskSize :: int where
  "taskSize = 8"

text \<open>
  \<open>make(chan Task, n)\<close>, as the runtime's \<open>makechan\<close> checks it: the size of the
  buffer in bytes must not overflow a 64-bit unsigned integer nor exceed
  \<open>maxAlloc - hchanSize\<close>, and \<open>n\<close> must not be negative; else it panics with
  \<open>makechan: size out of range\<close>.
\<close>

definition makechan :: "platform \<Rightarrow> GoInt \<Rightarrow> panic + chan" where
  "makechan pf n =
     (let mem = taskSize * sint n in
      if 2 ^ 64 \<le> mem \<or> maxAlloc pf - hchanSize pf < mem \<or> sint n < 0
      then Inl MakechanSizeOutOfRange
      else Inr \<lparr>buf = [], capacity = nat (sint n), closed = False, recvq = []\<rparr>)"

subsection \<open>NewWorkerPool\<close>

text \<open>
  The loop of lines 39-45: each iteration adds one to the wait group and starts a
  goroutine that runs \<open>process\<close>.
\<close>

fun spawn :: "nat \<Rightarrow> WorkerPool \<Rightarrow> WorkerPool" where
  "spawn 0 p = p"
| "spawn (Suc n) p =
     spawn n (p\<lparr>workerWaitGroup := workerWaitGroup p + 1,
                workers := workers p @ [Selecting]\<rparr>)"

text \<open>
  \<open>ctx\<close> says whether the parent context is already cancelled. The channel is made
  first, so a size that \<open>make\<close> refuses panics before any worker starts. The loop
  runs \<open>numOfWorkers\<close> times, and not at all when \<open>numOfWorkers\<close> is zero or
  negative. The function checks nothing itself. When the memory of the machine does
  not hold the buffer and the goroutines, the runtime ends the process.
\<close>

definition NewWorkerPool ::
  "platform \<Rightarrow> bool \<Rightarrow> GoInt \<Rightarrow> GoInt \<Rightarrow> Hook option \<Rightarrow> failure + WorkerPool" where
  "NewWorkerPool pf ctx numOfWorkers queueSize hook =
     (case makechan pf queueSize of
        Inl e \<Rightarrow> Inl (Panic e)
      | Inr ch \<Rightarrow>
          if \<not> enoughMemory pf (nat (sint numOfWorkers)) (capacity ch)
          then Inl FatalOutOfMemory
          else Inr (spawn (nat (sint numOfWorkers))
            \<lparr>taskQueue = ch,
             workerWaitGroup = 0,
             mu = False,
             afterTaskHook = hook,
             isStopped = False,
             ctxDone = ctx,
             workers = [],
             history = []\<rparr>))"

subsection \<open>Submit\<close>

text \<open>
  The receiver a send is handed to: the longest-blocked worker in the queue of the
  channel. Once the context is done there is none: the cancellation has woken every
  blocked worker with the case \<open>ctx.Done()\<close>, and the runtime skips a queued receiver
  whose \<open>select\<close> has already been decided, even before that worker has run.
\<close>

definition readyReceiver :: "WorkerPool \<Rightarrow> nat option" where
  "readyReceiver p =
     (if ctxDone p then None
      else case recvq (taskQueue p) of [] \<Rightarrow> None | i # waiting \<Rightarrow> Some i)"

text \<open>
  The \<open>select\<close> of lines 76-81, as the runtime's \<open>chansend\<close> does a send that must
  not block: a hand-off to the ready receiver if there is one (that worker leaves the
  queue and calls the task), else into the buffer if it has room (the result is the new
  state), else the default case (the result is \<open>None\<close>).
\<close>

definition trySend :: "Task \<Rightarrow> WorkerPool \<Rightarrow> WorkerPool option outcome" where
  "trySend task p =
     (if closed (taskQueue p) then Panics SendOnClosedChannel
      else case readyReceiver p of
        Some i \<Rightarrow>
          Returns (Some (p\<lparr>workers := (workers p)[i := Running task],
                           taskQueue := (taskQueue p)\<lparr>recvq := tl (recvq (taskQueue p))\<rparr>\<rparr>))
      | None \<Rightarrow>
          if length (buf (taskQueue p)) < capacity (taskQueue p) then
            Returns (Some (p\<lparr>taskQueue := (taskQueue p)\<lparr>buf := buf (taskQueue p) @ [task]\<rparr>\<rparr>))
          else Returns None)"

text \<open>
  \<open>RLock\<close> waits while a writer holds the lock. The deferred \<open>RUnlock\<close> leaves the
  lock as it was found.
\<close>

definition Submit :: "Task \<Rightarrow> WorkerPool \<Rightarrow> (pool_error option \<times> WorkerPool) outcome" where
  "Submit task p =
     (if mu p then Blocked
      else if isStopped p then Returns (Some ErrPoolStopped, p)
      else (case trySend task p of
              Blocked \<Rightarrow> Blocked
            | Panics e \<Rightarrow> Panics e
            | Returns (Some p') \<Rightarrow> Returns (None, p')
            | Returns None \<Rightarrow> Returns (Some ErrQueueFull, p)))"

subsection \<open>Stop\<close>

text \<open>
  \<open>Stop\<close> has one blocking point after it took the lock: \<open>workerWaitGroup.Wait()\<close>.
  \<open>Stop_lock\<close> is lines 86-95, up to that point; \<open>Stop_wait\<close> is lines 96-97 with the
  deferred \<open>Unlock\<close>. Other goroutines run between the two. Lines 93-95 (the flag, the
  cancellation, the close) are one step: Submit is kept out by the lock, and whatever a
  worker can do after the cancellation alone it can also do after the close.
\<close>

datatype stop_progress = StopReturned "pool_error option" | StopWaiting

definition Stop_lock :: "WorkerPool \<Rightarrow> (stop_progress \<times> WorkerPool) outcome" where
  "Stop_lock p =
     (if mu p then Blocked
      else if isStopped p then Returns (StopReturned None, p)
      else if closed (taskQueue p) then Panics CloseOfClosedChannel
      else Returns (StopWaiting,
             p\<lparr>mu := True,
               isStopped := True,
               ctxDone := True,
               taskQueue := (taskQueue p)\<lparr>closed := True\<rparr>\<rparr>))"

definition Stop_wait :: "WorkerPool \<Rightarrow> (pool_error option \<times> WorkerPool) outcome" where
  "Stop_wait p =
     (if mu p \<and> workerWaitGroup p = 0 then Returns (None, p\<lparr>mu := False\<rparr>)
      else Blocked)"

text \<open>
  The whole call, when no other goroutine runs in between: it returns if the pool was
  already stopped or no worker is left, and stays blocked in \<open>Wait\<close> otherwise.
\<close>

definition Stop :: "WorkerPool \<Rightarrow> (pool_error option \<times> WorkerPool) outcome" where
  "Stop p =
     (case Stop_lock p of
        Blocked \<Rightarrow> Blocked
      | Panics e \<Rightarrow> Panics e
      | Returns (StopReturned r, p') \<Rightarrow> Returns (r, p')
      | Returns (StopWaiting, p') \<Rightarrow> Stop_wait p')"

subsection \<open>process\<close>

text \<open>
  What a worker does next: take the \<open>ctx.Done()\<close> case, take the receive case, block
  in the \<open>select\<close>, have its task return, have the hook return. A worker entering the
  \<open>select\<close> takes a case that is ready, either one when both are, and blocks when none
  is. A blocked worker is woken by what makes a case ready: a task handed to it (in
  \<open>trySend\<close>, where it starts the task), or the cancellation of the context, with
  which it then returns. It never finds a task in the buffer: while a worker is blocked
  and the context is not done a send is a hand-off, and \<open>Stop\<close> cancels the context
  before it closes the channel.
\<close>

datatype wchoice = PickDone | PickTask | Park | TaskReturns | HookReturns

text \<open>\<open>return\<close> from \<open>process\<close>, then the deferred \<open>Done()\<close>.\<close>

definition exitWorker :: "nat \<Rightarrow> WorkerPool \<Rightarrow> WorkerPool outcome" where
  "exitWorker i p =
     (if workerWaitGroup p = 0 then Panics NegativeWaitGroupCounter
      else Returns (p\<lparr>workers := (workers p)[i := Exited],
                     workerWaitGroup := workerWaitGroup p - 1\<rparr>))"

text \<open>Line 53: the case \<open><-ctx.Done()\<close> can proceed when the context is done.\<close>

definition recvDone :: "nat \<Rightarrow> WorkerPool \<Rightarrow> WorkerPool outcome" where
  "recvDone i p = (if ctxDone p then exitWorker i p else Blocked)"

text \<open>
  Lines 55-59: the receive can proceed when the buffer holds a task (the worker then
  calls it) or when the channel is closed and drained (\<open>ok\<close> is false and the worker
  returns).
\<close>

definition recvTask :: "nat \<Rightarrow> WorkerPool \<Rightarrow> WorkerPool outcome" where
  "recvTask i p =
     (case buf (taskQueue p) of
        task # rest \<Rightarrow>
          Returns (p\<lparr>taskQueue := (taskQueue p)\<lparr>buf := rest\<rparr>,
                     workers := (workers p)[i := Running task]\<rparr>)
      | [] \<Rightarrow> if closed (taskQueue p) then exitWorker i p else Blocked)"

text \<open>
  The worker blocks in the \<open>select\<close> when neither case can proceed, and joins the
  queue of receivers at its end.
\<close>

definition park :: "nat \<Rightarrow> WorkerPool \<Rightarrow> WorkerPool outcome" where
  "park i p =
     (if \<not> ctxDone p \<and> buf (taskQueue p) = [] \<and> \<not> closed (taskQueue p)
      then Returns (p\<lparr>workers := (workers p)[i := Parked],
                     taskQueue := (taskQueue p)\<lparr>recvq := recvq (taskQueue p) @ [i]\<rparr>\<rparr>)
      else Blocked)"

text \<open>A woken worker takes itself out of the queue of receivers.\<close>

definition leaveRecvq :: "nat \<Rightarrow> WorkerPool \<Rightarrow> WorkerPool" where
  "leaveRecvq i p =
     p\<lparr>taskQueue := (taskQueue p)\<lparr>recvq := removeAll i (recvq (taskQueue p))\<rparr>\<rparr>"

text \<open>Lines 59-63: \<open>task()\<close> returned; the hook is called if it is not nil.\<close>

definition taskReturns :: "nat \<Rightarrow> Task \<Rightarrow> WorkerPool \<Rightarrow> WorkerPool outcome" where
  "taskReturns i task p =
     (case afterTaskHook p of
        None \<Rightarrow>
          Returns (p\<lparr>workers := (workers p)[i := Selecting],
                     history := history p @ [TaskReturned i task]\<rparr>)
      | Some h \<Rightarrow>
          Returns (p\<lparr>workers := (workers p)[i := InHook task],
                     history := history p @ [TaskReturned i task, HookCalled i task]\<rparr>))"

fun processStep :: "worker \<Rightarrow> wchoice \<Rightarrow> nat \<Rightarrow> WorkerPool \<Rightarrow> WorkerPool outcome" where
  "processStep Selecting PickDone i p = recvDone i p"
| "processStep Parked PickDone i p = recvDone i (leaveRecvq i p)"
| "processStep Selecting PickTask i p = recvTask i p"
| "processStep Selecting Park i p = park i p"
| "processStep (Running task) TaskReturns i p = taskReturns i task p"
| "processStep (InHook task) HookReturns i p =
     Returns (p\<lparr>workers := (workers p)[i := Selecting]\<rparr>)"
| "processStep _ _ i p = Blocked"

definition process :: "nat \<Rightarrow> wchoice \<Rightarrow> WorkerPool \<Rightarrow> WorkerPool outcome" where
  "process i c p =
     (if i < length (workers p) then processStep (workers p ! i) c i p else Blocked)"

subsection \<open>Executions\<close>

text \<open>
  One step of the system: a call of Submit, a call of Stop up to its wait, the waiting
  Stop returning, the cancellation of the parent context, or a step of worker \<open>i\<close>.
  A Submit call that returns is recorded in the history with its result.
\<close>

datatype action =
    CallSubmit Task
  | CallStop
  | StopResumes
  | CancelParent
  | Worker nat wchoice

fun step :: "action \<Rightarrow> WorkerPool \<Rightarrow> WorkerPool outcome" where
  "step (CallSubmit task) p =
     (case Submit task p of
        Blocked \<Rightarrow> Blocked
      | Panics e \<Rightarrow> Panics e
      | Returns (r, p') \<Rightarrow> Returns (p'\<lparr>history := history p' @ [Submitted task r]\<rparr>))"
| "step CallStop p =
     (case Stop_lock p of
        Blocked \<Rightarrow> Blocked
      | Panics e \<Rightarrow> Panics e
      | Returns (r, p') \<Rightarrow> Returns p')"
| "step StopResumes p =
     (case Stop_wait p of
        Blocked \<Rightarrow> Blocked
      | Panics e \<Rightarrow> Panics e
      | Returns (r, p') \<Rightarrow> Returns p')"
| "step CancelParent p = Returns (p\<lparr>ctxDone := True\<rparr>)"
| "step (Worker i c) p = process i c p"

text \<open>
  A schedule is a list of actions; it is an execution when every action can proceed in
  the state the ones before it produced.
\<close>

fun run :: "action list \<Rightarrow> WorkerPool \<Rightarrow> WorkerPool outcome" where
  "run [] p = Returns p"
| "run (a # as) p =
     (case step a p of
        Blocked \<Rightarrow> Blocked
      | Panics e \<Rightarrow> Panics e
      | Returns p' \<Rightarrow> run as p')"

definition reachable :: "WorkerPool \<Rightarrow> bool" where
  "reachable p \<longleftrightarrow>
     (\<exists>pf ctx numOfWorkers queueSize hook p0 as.
        NewWorkerPool pf ctx numOfWorkers queueSize hook = Inr p0 \<and> run as p0 = Returns p)"

subsection \<open>Invariants and observations\<close>

text \<open>The number of workers that have not returned from \<open>process\<close>.\<close>

definition live :: "worker list \<Rightarrow> nat" where
  "live ws = length (filter (\<lambda>w. w \<noteq> Exited) ws)"

text \<open>
  The queue of receivers lists the blocked workers, each once.
\<close>

definition queued :: "worker list \<Rightarrow> nat list \<Rightarrow> bool" where
  "queued ws q \<longleftrightarrow>
     distinct q \<and>
     (\<forall>i \<in> set q. i < length ws \<and> ws ! i = Parked) \<and>
     (\<forall>i < length ws. ws ! i = Parked \<longrightarrow> i \<in> set q)"

text \<open>
  What holds in every reachable state: the channel is closed exactly when the pool is
  stopped; the lock is held for writing only by a pool that is stopped; a stopped pool
  has its context done; the buffer respects the capacity; the wait group counts the
  workers that have not exited; once Stop has returned (stopped, lock free) that
  count is zero; the queue of receivers lists the blocked workers; and while a worker
  is blocked and the context is not done the buffer is empty.
\<close>

definition pool_inv :: "WorkerPool \<Rightarrow> bool" where
  "pool_inv p \<longleftrightarrow>
     closed (taskQueue p) = isStopped p \<and>
     (mu p \<longrightarrow> isStopped p) \<and>
     (isStopped p \<longrightarrow> ctxDone p) \<and>
     length (buf (taskQueue p)) \<le> capacity (taskQueue p) \<and>
     workerWaitGroup p = live (workers p) \<and>
     (isStopped p \<and> \<not> mu p \<longrightarrow> workerWaitGroup p = 0) \<and>
     queued (workers p) (recvq (taskQueue p)) \<and>
     (\<not> ctxDone p \<and> recvq (taskQueue p) \<noteq> [] \<longrightarrow> buf (taskQueue p) = [])"

text \<open>
  Read off a history: the tasks Submit accepted, the tasks that ran to their end, the
  tasks after which the hook was called; and, of the workers, the tasks being run.
\<close>

fun accepted :: "event list \<Rightarrow> Task list" where
  "accepted [] = []"
| "accepted (Submitted t None # es) = t # accepted es"
| "accepted (e # es) = accepted es"

fun returned :: "event list \<Rightarrow> Task list" where
  "returned [] = []"
| "returned (TaskReturned i t # es) = t # returned es"
| "returned (e # es) = returned es"

fun hooked :: "event list \<Rightarrow> Task list" where
  "hooked [] = []"
| "hooked (HookCalled i t # es) = t # hooked es"
| "hooked (e # es) = hooked es"

fun running :: "worker list \<Rightarrow> Task list" where
  "running [] = []"
| "running (Running t # ws) = t # running ws"
| "running (w # ws) = running ws"

text \<open>
  \<open>hookFollows True\<close>: every \<open>TaskReturned\<close> event is followed at once by the
  \<open>HookCalled\<close> event of the same worker and task, and no \<open>HookCalled\<close> event stands
  elsewhere. \<open>hookFollows False\<close>: there is no \<open>HookCalled\<close> event.
\<close>

fun hookFollows :: "bool \<Rightarrow> event list \<Rightarrow> bool" where
  "hookFollows b [] = True"
| "hookFollows b (Submitted t r # es) = hookFollows b es"
| "hookFollows b (HookCalled i t # es) = False"
| "hookFollows True (TaskReturned i t # HookCalled j u # es) =
     (j = i \<and> u = t \<and> hookFollows True es)"
| "hookFollows True (TaskReturned i t # es) = False"
| "hookFollows False (TaskReturned i t # es) = hookFollows False es"

text \<open>
  Every accepted task is in the queue, being run, or has returned, and nothing else is;
  the hook calls follow the returns.
\<close>

definition hist_inv :: "WorkerPool \<Rightarrow> bool" where
  "hist_inv p \<longleftrightarrow>
     mset (accepted (history p)) =
       mset (buf (taskQueue p)) + mset (running (workers p)) + mset (returned (history p)) \<and>
     hookFollows (afterTaskHook p \<noteq> None) (history p) \<and>
     hooked (history p) = (if afterTaskHook p = None then [] else returned (history p))"

fun taskOf :: "worker \<Rightarrow> Task multiset" where
  "taskOf (Running t) = {#t#}"
| "taskOf w = {#}"

text \<open>The number of steps of an execution at which \<open>isStopped\<close> changes its value.\<close>

fun flips :: "action list \<Rightarrow> WorkerPool \<Rightarrow> nat" where
  "flips [] p = 0"
| "flips (a # as) p =
     (case step a p of
        Returns p' \<Rightarrow> (if isStopped p' = isStopped p then 0 else 1) + flips as p'
      | _ \<Rightarrow> 0)"

definition allExited :: "WorkerPool \<Rightarrow> bool" where
  "allExited p \<longleftrightarrow> (\<forall>w \<in> set (workers p). w = Exited)"


text \<open>
  A schedule that lets every worker leave once the context is done: a worker inside a
  task or a hook first has it return, then takes the \<open>ctx.Done()\<close> case.
\<close>

fun windDown :: "Hook option \<Rightarrow> nat \<Rightarrow> worker \<Rightarrow> action list" where
  "windDown h i Exited = []"
| "windDown h i Selecting = [Worker i PickDone]"
| "windDown h i Parked = [Worker i PickDone]"
| "windDown h i (InHook task) = [Worker i HookReturns, Worker i PickDone]"
| "windDown None i (Running task) = [Worker i TaskReturns, Worker i PickDone]"
| "windDown (Some h) i (Running task) =
     [Worker i TaskReturns, Worker i HookReturns, Worker i PickDone]"

fun windDownFrom :: "Hook option \<Rightarrow> nat \<Rightarrow> worker list \<Rightarrow> action list" where
  "windDownFrom h i [] = []"
| "windDownFrom h i (w # ws) = windDown h i w @ windDownFrom h (Suc i) ws"

definition windDownAll :: "WorkerPool \<Rightarrow> action list" where
  "windDownAll p = windDownFrom (afterTaskHook p) 0 (workers p)"

text \<open>
  Two states that differ only in the workers, the queue of receivers, the wait group
  and the history.
\<close>

definition sameControl :: "WorkerPool \<Rightarrow> WorkerPool \<Rightarrow> bool" where
  "sameControl p p' \<longleftrightarrow>
     buf (taskQueue p') = buf (taskQueue p) \<and>
     capacity (taskQueue p') = capacity (taskQueue p) \<and>
     closed (taskQueue p') = closed (taskQueue p) \<and>
     isStopped p' = isStopped p \<and> mu p' = mu p \<and>
     ctxDone p' = ctxDone p \<and> afterTaskHook p' = afterTaskHook p"

subsection \<open>The configuration loader\<close>

text \<open>
  The structs of the package \<open>config\<close>, and the part of \<open>MustLoad\<close> that follows
  \<open>json.Unmarshal\<close> (the argument is the parsed configuration): \<open>log.Fatal\<close> on an
  empty path, then the defaults for every value that is zero or negative. No value is
  bounded from above. \<open>main\<close> passes \<open>NumberOfWorkers\<close> and \<open>QueueSize\<close> of the
  result to \<open>NewWorkerPool\<close>.
\<close>

record WorkerPoolConfig =
  QueueSize :: GoInt
  NumberOfWorkers :: GoInt

record Config =
  WorkerPool :: WorkerPoolConfig
  Timeout :: GoInt
  Path :: string






subsection \<open>Example states\<close>

text \<open>
  A platform with the constants of the 64-bit Linux runtime and memory for a million
  goroutines next to a buffer of \<open>2^30\<close> tasks (eight gibibytes). Then states of small
  pools, written out: the
  pools that \<open>NewWorkerPool\<close> returns for one worker and capacity 1, 0 and 10 and for
  no worker, and states that executions from them reach. The lemmas on them below give
  the executions.
\<close>

definition demoPlatform :: platform where
  "demoPlatform =
     \<lparr>maxAlloc = 2 ^ 48, hchanSize = 96,
      enoughMemory = (\<lambda>goroutines tasks. goroutines \<le> 1000000 \<and> tasks \<le> 2 ^ 30)\<rparr>"

definition demoPool :: WorkerPool where
  "demoPool =
     \<lparr>taskQueue = \<lparr>buf = [], capacity = 1, closed = False, recvq = []\<rparr>,
      workerWaitGroup = 1, mu = False, afterTaskHook = None, isStopped = False,
      ctxDone = False, workers = [Selecting], history = []\<rparr>"

definition demoWaiting :: WorkerPool where
  "demoWaiting =
     \<lparr>taskQueue = \<lparr>buf = [], capacity = 1, closed = True, recvq = []\<rparr>,
      workerWaitGroup = 0, mu = True, afterTaskHook = None, isStopped = True,
      ctxDone = True, workers = [Exited], history = []\<rparr>"

definition demoStopped :: WorkerPool where
  "demoStopped = demoWaiting\<lparr>mu := False\<rparr>"






definition demoUnhooked :: WorkerPool where
  "demoUnhooked =
     demoPool\<lparr>history := [Submitted 5 None, TaskReturned 0 5]\<rparr>"

definition demoLocked :: WorkerPool where
  "demoLocked = demoWaiting\<lparr>workerWaitGroup := 1, workers := [Selecting]\<rparr>"

definition demoHooked :: WorkerPool where
  "demoHooked =
     \<lparr>taskQueue = \<lparr>buf = [], capacity = 1, closed = False, recvq = []\<rparr>,
      workerWaitGroup = 1, mu = False, afterTaskHook = Some 0, isStopped = False,
      ctxDone = False, workers = [Selecting],
      history = [Submitted 5 None, Submitted 6 (Some ErrQueueFull),
                 TaskReturned 0 5, HookCalled 0 5]\<rparr>"

definition demoBusy :: WorkerPool where
  "demoBusy =
     \<lparr>taskQueue = \<lparr>buf = [], capacity = 1, closed = True, recvq = []\<rparr>,
      workerWaitGroup = 1, mu = True, afterTaskHook = None, isStopped = True,
      ctxDone = True, workers = [Running 5], history = [Submitted 5 None]\<rparr>"

definition demoCancelled :: WorkerPool where
  "demoCancelled = demoPool\<lparr>ctxDone := True, workerWaitGroup := 0, workers := [Exited]\<rparr>"

definition demoTestPool :: WorkerPool where
  "demoTestPool =
     \<lparr>taskQueue = \<lparr>buf = [], capacity = 10, closed = False, recvq = []\<rparr>,
      workerWaitGroup = 1, mu = False, afterTaskHook = None, isStopped = False,
      ctxDone = False, workers = [Selecting], history = []\<rparr>"

definition demoLost :: WorkerPool where
  "demoLost =
     \<lparr>taskQueue = \<lparr>buf = [7], capacity = 10, closed = True, recvq = []\<rparr>,
      workerWaitGroup = 0, mu = False, afterTaskHook = None, isStopped = True,
      ctxDone = True, workers = [Exited], history = [Submitted 7 None]\<rparr>"



section \<open>Lemmas\<close>

lemma spawn_eq:
  "spawn n p = p\<lparr>workerWaitGroup := workerWaitGroup p + n,
                 workers := workers p @ replicate n Selecting\<rparr>"
proof (induction n arbitrary: p)
  case 0
  show ?case by simp
next
  case (Suc n)
  show ?case by (simp add: Suc replicate_app_Cons_same)
qed

lemma live_Nil [simp]: "live [] = 0"
  by (simp add: live_def)

lemma live_Cons [simp]: "live (w # ws) = (if w = Exited then live ws else Suc (live ws))"
  by (simp add: live_def)

lemma live_append [simp]: "live (xs @ ys) = live xs + live ys"
  by (simp add: live_def)

lemma live_replicate_Selecting [simp]: "live (replicate n Selecting) = n"
  by (induction n) simp_all

lemma live_update:
  "i < length ws \<Longrightarrow>
   live (ws[i := w]) + (if ws ! i = Exited then 0 else 1) =
   live ws + (if w = Exited then 0 else 1)"
proof (induction ws arbitrary: i)
  case Nil
  then show ?case by simp
next
  case (Cons a ws)
  show ?case
  proof (cases i)
    case 0
    then show ?thesis by simp
  next
    case (Suc j)
    with Cons.prems have "j < length ws" by simp
    from Cons.IH [OF this] Suc show ?thesis by (auto split: if_splits)
  qed
qed

lemma live_zero_iff: "live ws = 0 \<longleftrightarrow> (\<forall>w \<in> set ws. w = Exited)"
  by (induction ws) auto

lemma live_update_same:
  "i < length ws \<Longrightarrow> ws ! i \<noteq> Exited \<Longrightarrow> w \<noteq> Exited \<Longrightarrow> live (ws[i := w]) = live ws"
  using live_update [of i ws w] by simp

lemma live_update_exit:
  "i < length ws \<Longrightarrow> ws ! i \<noteq> Exited \<Longrightarrow> live (ws[i := Exited]) = live ws - 1"
  using live_update [of i ws Exited] by simp

lemma live_pos:
  "i < length ws \<Longrightarrow> ws ! i \<noteq> Exited \<Longrightarrow> 0 < live ws"
  using live_update [of i ws Exited] by simp

lemma queued_Nil [simp]: "queued (replicate n Selecting) []"
  by (simp add: queued_def)

lemma queuedI:
  assumes "distinct q"
    and "\<And>j. j \<in> set q \<Longrightarrow> j < length ws \<and> ws ! j = Parked"
    and "\<And>j. j < length ws \<Longrightarrow> ws ! j = Parked \<Longrightarrow> j \<in> set q"
  shows "queued ws q"
  using assms unfolding queued_def by blast

lemma queuedD1: "queued ws q \<Longrightarrow> distinct q"
  unfolding queued_def by blast

lemma queuedD2: "queued ws q \<Longrightarrow> j \<in> set q \<Longrightarrow> j < length ws \<and> ws ! j = Parked"
  unfolding queued_def by blast

lemma queuedD3: "queued ws q \<Longrightarrow> j < length ws \<Longrightarrow> ws ! j = Parked \<Longrightarrow> j \<in> set q"
  unfolding queued_def by blast

lemma queued_other:
  assumes "queued ws q" and "i < length ws" and "ws ! i \<noteq> Parked" and "w \<noteq> Parked"
  shows "queued (ws[i := w]) q"
proof (rule queuedI)
  show "distinct q" using assms(1) by (rule queuedD1)
next
  fix j assume "j \<in> set q"
  with assms(1) have j: "j < length ws \<and> ws ! j = Parked" by (rule queuedD2)
  with assms(3) have "j \<noteq> i" by auto
  with j show "j < length (ws[i := w]) \<and> ws[i := w] ! j = Parked" by simp
next
  fix j assume j: "j < length (ws[i := w])" "ws[i := w] ! j = Parked"
  with assms(4) have "j \<noteq> i" by (cases "j = i") simp_all
  with j have "j < length ws" "ws ! j = Parked" by simp_all
  with assms(1) show "j \<in> set q" by (rule queuedD3)
qed

lemma queued_park:
  assumes "queued ws q" and "i < length ws" and "ws ! i \<noteq> Parked"
  shows "queued (ws[i := Parked]) (q @ [i])"
proof (rule queuedI)
  from assms(1,3) have "i \<notin> set q" using queuedD2 [of ws q i] by blast
  with queuedD1 [OF assms(1)] show "distinct (q @ [i])" by simp
next
  fix j assume "j \<in> set (q @ [i])"
  then consider "j \<in> set q" | "j = i" by auto
  then show "j < length (ws[i := Parked]) \<and> ws[i := Parked] ! j = Parked"
  proof cases
    case 1
    with assms(1) have j: "j < length ws \<and> ws ! j = Parked" by (rule queuedD2)
    then show ?thesis by (cases "j = i") simp_all
  next
    case 2
    with assms(2) show ?thesis by simp
  qed
next
  fix j assume j: "j < length (ws[i := Parked])" "ws[i := Parked] ! j = Parked"
  show "j \<in> set (q @ [i])"
  proof (cases "j = i")
    case True
    then show ?thesis by simp
  next
    case False
    with j have "j < length ws" "ws ! j = Parked" by simp_all
    with assms(1) have "j \<in> set q" by (rule queuedD3)
    then show ?thesis by simp
  qed
qed

lemma queued_leave:
  assumes "queued ws q" and "i < length ws" and "w \<noteq> Parked"
  shows "queued (ws[i := w]) (removeAll i q)"
proof (rule queuedI)
  from queuedD1 [OF assms(1)] show "distinct (removeAll i q)" by (rule distinct_removeAll)
next
  fix j assume "j \<in> set (removeAll i q)"
  then have ji: "j \<in> set q" "j \<noteq> i" by simp_all
  from assms(1) ji(1) have "j < length ws \<and> ws ! j = Parked" by (rule queuedD2)
  with ji(2) show "j < length (ws[i := w]) \<and> ws[i := w] ! j = Parked" by simp
next
  fix j assume j: "j < length (ws[i := w])" "ws[i := w] ! j = Parked"
  with assms(3) have ne: "j \<noteq> i" by (cases "j = i") simp_all
  with j have "j < length ws" "ws ! j = Parked" by simp_all
  with assms(1) have "j \<in> set q" by (rule queuedD3)
  with ne show "j \<in> set (removeAll i q)" by simp
qed

lemma queued_hd:
  "queued ws (i # q) \<Longrightarrow> i < length ws \<and> ws ! i = Parked"
  using queuedD2 [of ws "i # q" i] by simp

lemma queued_handoff:
  assumes "queued ws (i # q)" and "w \<noteq> Parked"
  shows "queued (ws[i := w]) q"
proof -
  from queued_hd [OF assms(1)] have "i < length ws" by simp
  from queued_leave [OF assms(1) this assms(2)] queuedD1 [OF assms(1)]
  show ?thesis by simp
qed

lemma queued_empty_iff:
  assumes "queued ws q"
  shows "q = [] \<longleftrightarrow> Parked \<notin> set ws"
proof
  assume "q = []"
  show "Parked \<notin> set ws"
  proof
    assume "Parked \<in> set ws"
    then obtain j where "j < length ws" "ws ! j = Parked" by (auto simp: in_set_conv_nth)
    with assms have "j \<in> set q" by (rule queuedD3)
    with \<open>q = []\<close> show False by simp
  qed
next
  assume n: "Parked \<notin> set ws"
  show "q = []"
  proof (cases q)
    case Nil
    then show ?thesis .
  next
    case (Cons j r)
    with assms have "j < length ws \<and> ws ! j = Parked" by (simp add: queued_hd)
    then have "Parked \<in> set ws" by (metis nth_mem)
    with n show ?thesis by simp
  qed
qed

lemma makechan_Inr:
  "makechan pf n = Inr ch \<Longrightarrow>
   ch = \<lparr>buf = [], capacity = nat (sint n), closed = False, recvq = []\<rparr> \<and> 0 \<le> sint n"
  by (auto simp: makechan_def Let_def split: if_splits)

lemma NewWorkerPool_fields:
  "NewWorkerPool pf ctx n q h = Inr p \<Longrightarrow>
   \<not> isStopped p \<and> \<not> mu p \<and> ctxDone p = ctx \<and> afterTaskHook p = h \<and>
   taskQueue p = \<lparr>buf = [], capacity = nat (sint q), closed = False, recvq = []\<rparr> \<and>
   workers p = replicate (nat (sint n)) Selecting \<and> workerWaitGroup p = nat (sint n) \<and>
   history p = [] \<and> 0 \<le> sint q"
  by (auto simp: NewWorkerPool_def spawn_eq dest!: makechan_Inr split: sum.splits if_splits)

lemma NewWorkerPool_inv:
  "NewWorkerPool pf ctx n q h = Inr p \<Longrightarrow> pool_inv p"
  by (drule NewWorkerPool_fields) (simp add: pool_inv_def)

lemma Submit_inv:
  assumes "pool_inv p" and "Submit t p = Returns (r, p')"
  shows "pool_inv p'"
proof (cases "readyReceiver p")
  case None
  with assms show ?thesis
    by (auto simp: Submit_def trySend_def pool_inv_def readyReceiver_def
        split: if_splits list.splits)
next
  case (Some i)
  then obtain q where q: "recvq (taskQueue p) = i # q" and c: "\<not> ctxDone p"
    by (auto simp: readyReceiver_def split: if_splits list.splits)
  from assms(1) q have h: "i < length (workers p)" "workers p ! i = Parked"
    using queued_hd [of "workers p" i q] by (simp_all add: pool_inv_def)
  from assms(1) q have "queued ((workers p)[i := Running t]) q"
    using queued_handoff [of "workers p" i q "Running t"] by (simp add: pool_inv_def)
  with assms Some q c h show ?thesis
    by (auto simp: Submit_def trySend_def pool_inv_def live_update_same split: if_splits)
qed

lemma Stop_lock_inv:
  "pool_inv p \<Longrightarrow> Stop_lock p = Returns (r, p') \<Longrightarrow> pool_inv p'"
  by (auto simp: Stop_lock_def pool_inv_def split: if_splits)

lemma Stop_wait_inv:
  "pool_inv p \<Longrightarrow> Stop_wait p = Returns (r, p') \<Longrightarrow> pool_inv p'"
  by (auto simp: Stop_wait_def pool_inv_def split: if_splits)

lemma exitWorker_Selecting_inv:
  "pool_inv p \<Longrightarrow> i < length (workers p) \<Longrightarrow> workers p ! i = Selecting \<Longrightarrow>
   exitWorker i p = Returns p' \<Longrightarrow> pool_inv p'"
  by (auto simp: exitWorker_def pool_inv_def live_update_exit queued_other split: if_splits)

lemma recvDone_Selecting_inv:
  "pool_inv p \<Longrightarrow> i < length (workers p) \<Longrightarrow> workers p ! i = Selecting \<Longrightarrow>
   recvDone i p = Returns p' \<Longrightarrow> pool_inv p'"
  by (auto simp: recvDone_def dest: exitWorker_Selecting_inv split: if_splits)

lemma recvDone_Parked_inv:
  assumes "pool_inv p" and "i < length (workers p)" and "workers p ! i = Parked"
    and "recvDone i (leaveRecvq i p) = Returns p'"
  shows "pool_inv p'"
proof -
  from assms(1,2) have "queued ((workers p)[i := Exited]) (removeAll i (recvq (taskQueue p)))"
    using queued_leave [of "workers p" "recvq (taskQueue p)" i Exited]
    by (simp add: pool_inv_def)
  with assms show ?thesis
    by (auto simp: recvDone_def exitWorker_def leaveRecvq_def pool_inv_def live_update_exit
        split: if_splits)
qed

lemma recvTask_inv:
  "pool_inv p \<Longrightarrow> i < length (workers p) \<Longrightarrow> workers p ! i = Selecting \<Longrightarrow>
   recvTask i p = Returns p' \<Longrightarrow> pool_inv p'"
proof (cases "buf (taskQueue p)")
  case Nil
  assume "pool_inv p" "i < length (workers p)" "workers p ! i = Selecting"
    "recvTask i p = Returns p'"
  with Nil show ?thesis
    by (auto simp: recvTask_def dest: exitWorker_Selecting_inv split: if_splits)
next
  case (Cons t rest)
  assume "pool_inv p" "i < length (workers p)" "workers p ! i = Selecting"
    "recvTask i p = Returns p'"
  with Cons show ?thesis
    by (auto simp: recvTask_def pool_inv_def live_update_same queued_other)
qed

lemma park_inv:
  "pool_inv p \<Longrightarrow> i < length (workers p) \<Longrightarrow> workers p ! i = Selecting \<Longrightarrow>
   park i p = Returns p' \<Longrightarrow> pool_inv p'"
  by (auto simp: park_def pool_inv_def live_update_same queued_park split: if_splits)

lemma taskReturns_inv:
  "pool_inv p \<Longrightarrow> i < length (workers p) \<Longrightarrow> workers p ! i = Running t \<Longrightarrow>
   taskReturns i t p = Returns p' \<Longrightarrow> pool_inv p'"
  by (auto simp: taskReturns_def pool_inv_def live_update_same queued_other
      split: option.splits)

lemma hookReturns_inv:
  "pool_inv p \<Longrightarrow> i < length (workers p) \<Longrightarrow> workers p ! i = InHook t \<Longrightarrow>
   pool_inv (p\<lparr>workers := (workers p)[i := Selecting]\<rparr>)"
  by (auto simp: pool_inv_def live_update_same queued_other)

lemma processStep_inv:
  "pool_inv p \<Longrightarrow> i < length (workers p) \<Longrightarrow> workers p ! i = w \<Longrightarrow>
   processStep w c i p = Returns p' \<Longrightarrow> pool_inv p'"
  by (cases "(w, c, i, p)" rule: processStep.cases)
    (auto dest: recvDone_Selecting_inv recvDone_Parked_inv recvTask_inv park_inv
       taskReturns_inv hookReturns_inv)

lemma process_inv:
  "pool_inv p \<Longrightarrow> process i c p = Returns p' \<Longrightarrow> pool_inv p'"
  by (auto simp: process_def dest: processStep_inv split: if_splits)

lemma pool_inv_history [simp]: "pool_inv (p\<lparr>history := h\<rparr>) = pool_inv p"
  by (simp add: pool_inv_def)

lemma step_inv:
  "pool_inv p \<Longrightarrow> step a p = Returns p' \<Longrightarrow> pool_inv p'"
proof (cases a)
  case (CallSubmit t)
  assume "pool_inv p" "step a p = Returns p'"
  with CallSubmit show ?thesis
    by (auto split: outcome.splits dest: Submit_inv)
next
  case CallStop
  assume "pool_inv p" "step a p = Returns p'"
  with CallStop show ?thesis
    by (auto split: outcome.splits dest: Stop_lock_inv)
next
  case StopResumes
  assume "pool_inv p" "step a p = Returns p'"
  with StopResumes show ?thesis
    by (auto split: outcome.splits dest: Stop_wait_inv)
next
  case CancelParent
  assume "pool_inv p" "step a p = Returns p'"
  with CancelParent show ?thesis
    by (auto simp: pool_inv_def)
next
  case (Worker i c)
  assume "pool_inv p" "step a p = Returns p'"
  with Worker show ?thesis
    by (auto dest: process_inv)
qed

lemma run_inv:
  "pool_inv p \<Longrightarrow> run as p = Returns p' \<Longrightarrow> pool_inv p'"
proof (induction as arbitrary: p)
  case Nil
  then show ?case by simp
next
  case (Cons a as)
  from Cons.prems(2) obtain q where q: "step a p = Returns q" "run as q = Returns p'"
    by (auto split: outcome.splits)
  from step_inv [OF Cons.prems(1) q(1)] q(2) show ?case
    by (rule Cons.IH)
qed

lemma reachable_inv: "reachable p \<Longrightarrow> pool_inv p"
  by (auto simp: reachable_def dest: NewWorkerPool_inv run_inv)

lemma accepted_append [simp]: "accepted (xs @ ys) = accepted xs @ accepted ys"
  by (induction xs rule: accepted.induct) simp_all

lemma returned_append [simp]: "returned (xs @ ys) = returned xs @ returned ys"
  by (induction xs rule: returned.induct) simp_all

lemma hooked_append [simp]: "hooked (xs @ ys) = hooked xs @ hooked ys"
  by (induction xs rule: hooked.induct) simp_all

lemma hookFollows_append:
  "hookFollows b xs \<Longrightarrow> hookFollows b (xs @ ys) = hookFollows b ys"
  by (induction b xs rule: hookFollows.induct) simp_all

lemma running_update:
  "i < length ws \<Longrightarrow>
   mset (running (ws[i := w])) + taskOf (ws ! i) = mset (running ws) + taskOf w"
proof (induction ws arbitrary: i)
  case Nil
  then show ?case by simp
next
  case (Cons a ws)
  show ?case
  proof (cases i)
    case 0
    then show ?thesis by (cases a; cases w) simp_all
  next
    case (Suc j)
    with Cons.prems have "j < length ws" by simp
    from Cons.IH [OF this] Suc show ?thesis by (cases a) simp_all
  qed
qed

lemma running_replicate_Selecting [simp]: "running (replicate n Selecting) = []"
  by (induction n) simp_all

lemma NewWorkerPool_hist: "NewWorkerPool pf ctx n q h = Inr p \<Longrightarrow> hist_inv p"
  by (drule NewWorkerPool_fields) (simp add: hist_inv_def)

lemma running_start:
  "i < length ws \<Longrightarrow> taskOf (ws ! i) = {#} \<Longrightarrow>
   mset (running (ws[i := Running t])) = add_mset t (mset (running ws))"
  using running_update [of i ws "Running t"] by simp

lemma running_finish:
  "i < length ws \<Longrightarrow> ws ! i = Running t \<Longrightarrow> taskOf w = {#} \<Longrightarrow>
   add_mset t (mset (running (ws[i := w]))) = mset (running ws)"
  using running_update [of i ws w] by simp

lemma running_same:
  "i < length ws \<Longrightarrow> taskOf (ws ! i) = {#} \<Longrightarrow> taskOf w = {#} \<Longrightarrow>
   mset (running (ws[i := w])) = mset (running ws)"
  using running_update [of i ws w] by simp

lemma Submit_hist:
  assumes "pool_inv p" and "hist_inv p" and "Submit t p = Returns (r, p')"
  shows "hist_inv (p'\<lparr>history := history p' @ [Submitted t r]\<rparr>)"
proof (cases "readyReceiver p")
  case None
  with assms(2,3) show ?thesis
    by (auto simp: Submit_def trySend_def hist_inv_def hookFollows_append split: if_splits)
next
  case (Some i)
  then obtain q where q: "recvq (taskQueue p) = i # q"
    by (auto simp: readyReceiver_def split: if_splits list.splits)
  with assms(1) have "i < length (workers p)" "workers p ! i = Parked"
    using queued_hd [of "workers p" i q] by (simp_all add: pool_inv_def)
  then have "mset (running ((workers p)[i := Running t])) =
      add_mset t (mset (running (workers p)))"
    by (simp add: running_start)
  with assms(2,3) Some show ?thesis
    by (auto simp: Submit_def trySend_def hist_inv_def hookFollows_append split: if_splits)
qed

lemma Stop_lock_hist:
  "hist_inv p \<Longrightarrow> Stop_lock p = Returns (r, p') \<Longrightarrow> hist_inv p'"
  by (auto simp: Stop_lock_def hist_inv_def split: if_splits)

lemma Stop_wait_hist:
  "hist_inv p \<Longrightarrow> Stop_wait p = Returns (r, p') \<Longrightarrow> hist_inv p'"
  by (auto simp: Stop_wait_def hist_inv_def split: if_splits)

lemma exitWorker_hist:
  "hist_inv p \<Longrightarrow> i < length (workers p) \<Longrightarrow> taskOf (workers p ! i) = {#} \<Longrightarrow>
   exitWorker i p = Returns p' \<Longrightarrow> hist_inv p'"
  by (auto simp: exitWorker_def hist_inv_def running_same split: if_splits)

lemma recvDone_hist:
  "hist_inv p \<Longrightarrow> i < length (workers p) \<Longrightarrow> taskOf (workers p ! i) = {#} \<Longrightarrow>
   recvDone i p = Returns p' \<Longrightarrow> hist_inv p'"
  by (auto simp: recvDone_def dest: exitWorker_hist split: if_splits)

lemma recvTask_hist:
  "hist_inv p \<Longrightarrow> i < length (workers p) \<Longrightarrow> taskOf (workers p ! i) = {#} \<Longrightarrow>
   recvTask i p = Returns p' \<Longrightarrow> hist_inv p'"
proof (cases "buf (taskQueue p)")
  case Nil
  assume "hist_inv p" "i < length (workers p)" "taskOf (workers p ! i) = {#}"
    "recvTask i p = Returns p'"
  with Nil show ?thesis
    by (auto simp: recvTask_def dest: exitWorker_hist split: if_splits)
next
  case (Cons t rest)
  assume "hist_inv p" "i < length (workers p)" "taskOf (workers p ! i) = {#}"
    "recvTask i p = Returns p'"
  with Cons show ?thesis
    by (auto simp: recvTask_def hist_inv_def running_start)
qed

lemma park_hist:
  "hist_inv p \<Longrightarrow> i < length (workers p) \<Longrightarrow> taskOf (workers p ! i) = {#} \<Longrightarrow>
   park i p = Returns p' \<Longrightarrow> hist_inv p'"
  by (auto simp: park_def hist_inv_def running_same split: if_splits)

lemma leaveRecvq_hist [simp]: "hist_inv (leaveRecvq i p) = hist_inv p"
  by (simp add: hist_inv_def leaveRecvq_def)

lemma leaveRecvq_workers [simp]: "workers (leaveRecvq i p) = workers p"
  by (simp add: leaveRecvq_def)

lemma recvDone_Parked_hist:
  "hist_inv p \<Longrightarrow> i < length (workers p) \<Longrightarrow> workers p ! i = Parked \<Longrightarrow>
   recvDone i (leaveRecvq i p) = Returns p' \<Longrightarrow> hist_inv p'"
  using recvDone_hist [of "leaveRecvq i p" i p'] by simp

lemma taskReturns_hist:
  assumes "hist_inv p" "i < length (workers p)" "workers p ! i = Running t"
    "taskReturns i t p = Returns p'"
  shows "hist_inv p'"
proof (cases "afterTaskHook p")
  case None
  with assms running_finish [of i "workers p" t Selecting] show ?thesis
    by (auto simp: taskReturns_def hist_inv_def hookFollows_append)
next
  case (Some h)
  with assms running_finish [of i "workers p" t "InHook t"] show ?thesis
    by (auto simp: taskReturns_def hist_inv_def hookFollows_append)
qed

lemma hookReturns_hist:
  "hist_inv p \<Longrightarrow> i < length (workers p) \<Longrightarrow> taskOf (workers p ! i) = {#} \<Longrightarrow>
   hist_inv (p\<lparr>workers := (workers p)[i := Selecting]\<rparr>)"
  by (auto simp: hist_inv_def running_same)

lemma processStep_hist:
  "hist_inv p \<Longrightarrow> i < length (workers p) \<Longrightarrow> workers p ! i = w \<Longrightarrow>
   processStep w c i p = Returns p' \<Longrightarrow> hist_inv p'"
  by (cases "(w, c, i, p)" rule: processStep.cases)
    (auto dest: recvDone_hist recvDone_Parked_hist recvTask_hist park_hist taskReturns_hist
       hookReturns_hist)

lemma process_hist:
  "hist_inv p \<Longrightarrow> process i c p = Returns p' \<Longrightarrow> hist_inv p'"
  by (auto simp: process_def dest: processStep_hist split: if_splits)

lemma step_hist:
  "pool_inv p \<Longrightarrow> hist_inv p \<Longrightarrow> step a p = Returns p' \<Longrightarrow> hist_inv p'"
proof (cases a)
  case (CallSubmit t)
  assume "pool_inv p" "hist_inv p" "step a p = Returns p'"
  with CallSubmit show ?thesis
    by (auto split: outcome.splits dest: Submit_hist)
next
  case CallStop
  assume "hist_inv p" "step a p = Returns p'"
  with CallStop show ?thesis
    by (auto split: outcome.splits dest: Stop_lock_hist)
next
  case StopResumes
  assume "hist_inv p" "step a p = Returns p'"
  with StopResumes show ?thesis
    by (auto split: outcome.splits dest: Stop_wait_hist)
next
  case CancelParent
  assume "hist_inv p" "step a p = Returns p'"
  with CancelParent show ?thesis
    by (auto simp: hist_inv_def)
next
  case (Worker i c)
  assume "hist_inv p" "step a p = Returns p'"
  with Worker show ?thesis
    by (auto dest: process_hist)
qed

lemma run_hist:
  "pool_inv p \<Longrightarrow> hist_inv p \<Longrightarrow> run as p = Returns p' \<Longrightarrow> hist_inv p'"
proof (induction as arbitrary: p)
  case Nil
  then show ?case by simp
next
  case (Cons a as)
  from Cons.prems(3) obtain q where q: "step a p = Returns q" "run as q = Returns p'"
    by (auto split: outcome.splits)
  from step_inv [OF Cons.prems(1) q(1)] step_hist [OF Cons.prems(1,2) q(1)] q(2)
  show ?case by (rule Cons.IH)
qed

lemma reachable_hist: "reachable p \<Longrightarrow> hist_inv p"
  unfolding reachable_def
  using NewWorkerPool_inv NewWorkerPool_hist run_hist by blast

lemma exitWorker_frame:
  "exitWorker i p = Returns p' \<Longrightarrow>
   isStopped p' = isStopped p \<and> mu p' = mu p \<and> ctxDone p' = ctxDone p \<and>
   afterTaskHook p' = afterTaskHook p \<and> taskQueue p' = taskQueue p \<and>
   length (workers p') = length (workers p) \<and> history p' = history p"
  by (auto simp: exitWorker_def split: if_splits)

lemma processStep_frame:
  "processStep w c i p = Returns p' \<Longrightarrow>
   isStopped p' = isStopped p \<and> mu p' = mu p \<and> ctxDone p' = ctxDone p \<and>
   afterTaskHook p' = afterTaskHook p \<and>
   capacity (taskQueue p') = capacity (taskQueue p) \<and>
   closed (taskQueue p') = closed (taskQueue p) \<and>
   length (workers p') = length (workers p)"
  by (cases "(w, c, i, p)" rule: processStep.cases)
    (auto simp: recvDone_def recvTask_def park_def taskReturns_def leaveRecvq_def
       dest: exitWorker_frame split: if_splits list.splits option.splits)

lemma process_frame:
  "process i c p = Returns p' \<Longrightarrow>
   isStopped p' = isStopped p \<and> mu p' = mu p \<and> ctxDone p' = ctxDone p \<and>
   afterTaskHook p' = afterTaskHook p \<and>
   capacity (taskQueue p') = capacity (taskQueue p) \<and>
   closed (taskQueue p') = closed (taskQueue p) \<and>
   length (workers p') = length (workers p)"
  by (auto simp: process_def dest: processStep_frame split: if_splits)

lemma Submit_frame:
  "Submit t p = Returns (r, p') \<Longrightarrow>
   isStopped p' = isStopped p \<and> mu p' = mu p \<and> ctxDone p' = ctxDone p \<and>
   afterTaskHook p' = afterTaskHook p \<and>
   capacity (taskQueue p') = capacity (taskQueue p) \<and>
   closed (taskQueue p') = closed (taskQueue p) \<and>
   length (workers p') = length (workers p) \<and> workerWaitGroup p' = workerWaitGroup p \<and>
   history p' = history p"
  by (auto simp: Submit_def trySend_def split: if_splits option.splits)

lemma step_frame:
  "step a p = Returns p' \<Longrightarrow>
   afterTaskHook p' = afterTaskHook p \<and>
   capacity (taskQueue p') = capacity (taskQueue p) \<and>
   length (workers p') = length (workers p)"
  by (cases a)
    (auto simp: Stop_lock_def Stop_wait_def dest: Submit_frame process_frame
       split: outcome.splits if_splits)

lemma step_flag:
  "step a p = Returns p' \<Longrightarrow>
   (isStopped p \<longrightarrow> isStopped p') \<and> (isStopped p' \<noteq> isStopped p \<longrightarrow> a = CallStop)"
  by (cases a)
    (auto simp: Stop_lock_def Stop_wait_def dest: Submit_frame process_frame
       split: outcome.splits if_splits)

lemma step_stop_returned:
  "step a p = Returns p' \<Longrightarrow> isStopped p \<Longrightarrow> \<not> mu p \<Longrightarrow> isStopped p' \<and> \<not> mu p'"
  by (cases a)
    (auto simp: Stop_lock_def Stop_wait_def dest: Submit_frame process_frame
       split: outcome.splits if_splits)

lemma run_frame:
  "run as p = Returns p' \<Longrightarrow>
   afterTaskHook p' = afterTaskHook p \<and>
   capacity (taskQueue p') = capacity (taskQueue p) \<and>
   length (workers p') = length (workers p)"
proof (induction as arbitrary: p)
  case Nil
  then show ?case by simp
next
  case (Cons a as)
  from Cons.prems obtain q where q: "step a p = Returns q" "run as q = Returns p'"
    by (auto split: outcome.splits)
  from step_frame [OF q(1)] Cons.IH [OF q(2)] show ?case by simp
qed

lemma run_stop_returned:
  "run as p = Returns p' \<Longrightarrow> isStopped p \<Longrightarrow> \<not> mu p \<Longrightarrow> isStopped p' \<and> \<not> mu p'"
proof (induction as arbitrary: p)
  case Nil
  then show ?case by simp
next
  case (Cons a as)
  from Cons.prems(1) obtain q where q: "step a p = Returns q" "run as q = Returns p'"
    by (auto split: outcome.splits)
  from step_stop_returned [OF q(1) Cons.prems(2,3)] Cons.IH [OF q(2)] show ?case by simp
qed

lemma run_flips:
  "run as p = Returns p' \<Longrightarrow>
   (isStopped p \<longrightarrow> isStopped p') \<and>
   flips as p = (if isStopped p' = isStopped p then 0 else 1)"
proof (induction as arbitrary: p)
  case Nil
  then show ?case by simp
next
  case (Cons a as)
  from Cons.prems obtain q where q: "step a p = Returns q" "run as q = Returns p'"
    by (auto split: outcome.splits)
  from step_flag [OF q(1)] Cons.IH [OF q(2)] q(1) show ?case by auto
qed

lemma run_append:
  "run (as @ bs) p = (case run as p of Returns q \<Rightarrow> run bs q | Blocked \<Rightarrow> Blocked | Panics e \<Rightarrow> Panics e)"
  by (induction as arbitrary: p) (auto split: outcome.splits)

lemma reachableI:
  "NewWorkerPool pf ctx n q h = Inr p0 \<Longrightarrow> run as p0 = Returns p \<Longrightarrow> reachable p"
  unfolding reachable_def by blast

lemma reachable_run:
  assumes "reachable p" and "run as p = Returns p'"
  shows "reachable p'"
proof -
  from assms(1) obtain pf ctx n q h p0 bs
    where 0: "NewWorkerPool pf ctx n q h = Inr p0" and 1: "run bs p0 = Returns p"
    unfolding reachable_def by blast
  from 1 assms(2) have "run (bs @ as) p0 = Returns p'"
    by (simp add: run_append)
  with 0 show ?thesis by (rule reachableI)
qed

lemma demoPool_new: "NewWorkerPool demoPlatform False 1 1 None = Inr demoPool"
  by (simp add: NewWorkerPool_def makechan_def taskSize_def demoPlatform_def Let_def demoPool_def)

lemma demoWaiting_run: "run [CallStop, Worker 0 PickDone] demoPool = Returns demoWaiting"
  by (simp add: demoPool_def demoWaiting_def Stop_lock_def process_def recvDone_def
      exitWorker_def)

lemma demoWaiting_reachable: "reachable demoWaiting"
  using demoPool_new demoWaiting_run by (rule reachableI)

lemma demoStopped_wait: "Stop_wait demoWaiting = Returns (None, demoStopped)"
  by (simp add: Stop_wait_def demoWaiting_def demoStopped_def)

lemma demoStopped_run:
  "run [CallStop, CallSubmit 3] demoStopped =
   Returns (demoStopped\<lparr>history := [Submitted 3 (Some ErrPoolStopped)]\<rparr>)"
  by (simp add: demoStopped_def demoWaiting_def Stop_lock_def Submit_def)

lemma demoPool_reachable: "reachable demoPool"
  using demoPool_new run.simps(1) by (rule reachableI)








lemma allExited_recvq:
  assumes "pool_inv p" and "allExited p"
  shows "recvq (taskQueue p) = []"
proof -
  from assms(1) have q: "queued (workers p) (recvq (taskQueue p))" by (simp add: pool_inv_def)
  from assms(2) have "Parked \<notin> set (workers p)" by (auto simp: allExited_def)
  with queued_empty_iff [OF q] show ?thesis by simp
qed

lemma step_allExited:
  assumes "pool_inv p" and "allExited p" and "step a p = Returns p'"
  shows "allExited p' \<and> returned (history p') = returned (history p) \<and>
         workers p' = workers p \<and>
         (\<exists>tasks. buf (taskQueue p') = buf (taskQueue p) @ tasks)"
proof (cases a)
  case (CallSubmit t)
  with assms(2,3) allExited_recvq [OF assms(1,2)] show ?thesis
    by (auto simp: allExited_def Submit_def trySend_def readyReceiver_def
        split: if_splits outcome.splits)
next
  case CallStop
  with assms show ?thesis
    by (auto simp: allExited_def Stop_lock_def split: if_splits)
next
  case StopResumes
  with assms show ?thesis
    by (auto simp: allExited_def Stop_wait_def split: if_splits)
next
  case CancelParent
  with assms show ?thesis
    by (auto simp: allExited_def)
next
  case (Worker i c)
  with assms have "i < length (workers p)" "processStep (workers p ! i) c i p = Returns p'"
    by (auto simp: process_def split: if_splits)
  moreover from this(1) assms(2) have "workers p ! i = Exited"
    by (simp add: allExited_def)
  ultimately show ?thesis by (cases c) simp_all
qed

lemma run_allExited:
  "pool_inv p \<Longrightarrow> allExited p \<Longrightarrow> run as p = Returns p' \<Longrightarrow>
   allExited p' \<and> returned (history p') = returned (history p) \<and>
   workers p' = workers p \<and>
   (\<exists>tasks. buf (taskQueue p') = buf (taskQueue p) @ tasks)"
proof (induction as arbitrary: p)
  case Nil
  then show ?case by simp
next
  case (Cons a as)
  from Cons.prems(3) obtain q where q: "step a p = Returns q" "run as q = Returns p'"
    by (auto split: outcome.splits)
  from step_inv [OF Cons.prems(1) q(1)] have iq: "pool_inv q" .
  from step_allExited [OF Cons.prems(1,2) q(1)] Cons.IH [OF iq _ q(2)] show ?case
    by auto
qed

lemma process_allExited: "allExited p \<Longrightarrow> process i c p = Blocked"
proof (cases "i < length (workers p)")
  case True
  assume "allExited p"
  with True have "workers p ! i = Exited" by (simp add: allExited_def)
  with True show ?thesis by (cases c) (simp_all add: process_def)
next
  case False
  then show ?thesis by (simp add: process_def)
qed

lemma step_inert:
  assumes "isStopped p" and "\<not> mu p" and "allExited p" and "step a p = Returns p'"
  shows "taskQueue p' = taskQueue p \<and> workers p' = workers p \<and> isStopped p' \<and> \<not> mu p' \<and>
         returned (history p') = returned (history p) \<and>
         accepted (history p') = accepted (history p)"
proof (cases a)
  case (CallSubmit t)
  with assms show ?thesis by (auto simp: Submit_def)
next
  case CallStop
  with assms show ?thesis by (auto simp: Stop_lock_def)
next
  case StopResumes
  with assms show ?thesis by (auto simp: Stop_wait_def)
next
  case CancelParent
  with assms show ?thesis by auto
next
  case (Worker i c)
  with assms process_allExited [OF assms(3), of i c] show ?thesis by simp
qed

lemma run_inert:
  "isStopped p \<Longrightarrow> \<not> mu p \<Longrightarrow> allExited p \<Longrightarrow> run as p = Returns p' \<Longrightarrow>
   taskQueue p' = taskQueue p \<and> workers p' = workers p \<and> isStopped p' \<and> \<not> mu p' \<and>
   returned (history p') = returned (history p) \<and>
   accepted (history p') = accepted (history p)"
proof (induction as arbitrary: p)
  case Nil
  then show ?case by simp
next
  case (Cons a as)
  from Cons.prems(4) obtain q where q: "step a p = Returns q" "run as q = Returns p'"
    by (auto split: outcome.splits)
  from step_inert [OF Cons.prems(1,2,3) q(1)]
  have 1: "taskQueue q = taskQueue p \<and> workers q = workers p \<and> isStopped q \<and> \<not> mu q \<and>
         returned (history q) = returned (history p) \<and>
         accepted (history q) = accepted (history p)" .
  with Cons.prems(3) have "allExited q" by (simp add: allExited_def)
  with 1 Cons.IH [OF _ _ _ q(2)] show ?case by simp
qed

lemma windDown_one:
  assumes "ctxDone p" and "workerWaitGroup p = live (workers p)" and "i < length (workers p)"
  shows "\<exists>p'. run (windDown (afterTaskHook p) i (workers p ! i)) p = Returns p' \<and>
           workers p' = (workers p)[i := Exited] \<and>
           workerWaitGroup p' = live (workers p') \<and> sameControl p p'"
proof (cases "workers p ! i")
  case Selecting
  with assms live_pos [of i "workers p"] show ?thesis
    by (simp add: process_def recvDone_def exitWorker_def sameControl_def live_update_exit)
next
  case Parked
  with assms live_pos [of i "workers p"] show ?thesis
    by (simp add: process_def recvDone_def exitWorker_def leaveRecvq_def sameControl_def
        live_update_exit)
next
  case (Running t)
  with assms live_pos [of i "workers p"] show ?thesis
    by (cases "afterTaskHook p")
      (simp_all add: process_def recvDone_def exitWorker_def taskReturns_def sameControl_def
         live_update_exit live_update_same)
next
  case (InHook t)
  with assms live_pos [of i "workers p"] show ?thesis
    by (simp add: process_def recvDone_def exitWorker_def sameControl_def live_update_exit
        live_update_same)
next
  case Exited
  with assms list_update_id [of "workers p" i] show ?thesis
    by (simp add: sameControl_def)
qed

lemma windDownFrom_run:
  "ctxDone p \<Longrightarrow> workerWaitGroup p = live (workers p) \<Longrightarrow> drop i (workers p) = ws \<Longrightarrow>
   \<exists>p'. run (windDownFrom (afterTaskHook p) i ws) p = Returns p' \<and>
         workers p' = take i (workers p) @ replicate (length ws) Exited \<and>
         workerWaitGroup p' = live (workers p') \<and> sameControl p p'"
proof (induction ws arbitrary: i p)
  case Nil
  then show ?case by (simp add: sameControl_def)
next
  case (Cons w ws)
  from Cons.prems(3) have len: "i < length (workers p)"
    by (cases "i < length (workers p)") simp_all
  from Cons.prems(3) have w: "workers p ! i = w"
    by (rule nth_via_drop)
  from Cons_nth_drop_Suc [OF len] Cons.prems(3) have rest: "drop (Suc i) (workers p) = ws"
    by simp
  from windDown_one [OF Cons.prems(1,2) len] w obtain p1 where
    1: "run (windDown (afterTaskHook p) i w) p = Returns p1"
    and 2: "workers p1 = (workers p)[i := Exited]"
    and 3: "workerWaitGroup p1 = live (workers p1)" and 4: "sameControl p p1"
    by auto
  from 4 Cons.prems(1) have c1: "ctxDone p1" by (simp add: sameControl_def)
  from 2 rest have d1: "drop (Suc i) (workers p1) = ws" by simp
  from Cons.IH [OF c1 3 d1] obtain p' where
    5: "run (windDownFrom (afterTaskHook p1) (Suc i) ws) p1 = Returns p'"
    and 6: "workers p' = take (Suc i) (workers p1) @ replicate (length ws) Exited"
    and 7: "workerWaitGroup p' = live (workers p')" and 8: "sameControl p1 p'"
    by auto
  from 4 have h: "afterTaskHook p1 = afterTaskHook p" by (simp add: sameControl_def)
  from 1 5 h have "run (windDownFrom (afterTaskHook p) i (w # ws)) p = Returns p'"
    by (simp add: run_append)
  moreover from 6 2 len have "workers p' = take i (workers p) @ replicate (length (w # ws)) Exited"
    by (simp add: take_Suc_conv_app_nth)
  moreover from 4 8 have "sameControl p p'" by (simp add: sameControl_def)
  ultimately show ?case using 7 by blast
qed

lemma windDownAll_run:
  assumes "pool_inv p" and "ctxDone p"
  shows "\<exists>p'. run (windDownAll p) p = Returns p' \<and> allExited p' \<and>
           workerWaitGroup p' = 0 \<and> sameControl p p'"
proof -
  from assms have "workerWaitGroup p = live (workers p)" by (simp add: pool_inv_def)
  from windDownFrom_run [OF assms(2) this, of 0 "workers p"] obtain p' where
    1: "run (windDownAll p) p = Returns p'"
    and 2: "workers p' = replicate (length (workers p)) Exited"
    and 3: "workerWaitGroup p' = live (workers p')" and 4: "sameControl p p'"
    by (auto simp: windDownAll_def)
  from 2 have "allExited p'" by (simp add: allExited_def)
  moreover from this 3 have "workerWaitGroup p' = 0"
    by (simp add: live_zero_iff allExited_def)
  ultimately show ?thesis using 1 4 by blast
qed

lemma park_ctxDone: "ctxDone p \<Longrightarrow> process i Park p = Blocked"
proof (cases "i < length (workers p)")
  case True
  assume "ctxDone p"
  then show ?thesis
    by (cases "workers p ! i") (simp_all add: process_def park_def)
next
  case False
  then show ?thesis by (simp add: process_def)
qed

lemma select_ctxDone:
  assumes "ctxDone p" and "buf (taskQueue p) = []"
    and "workers p ! i = Selecting \<or> workers p ! i = Parked"
    and "process i c p = Returns p'"
  shows "workers p' ! i = Exited"
proof -
  from assms(4) have len: "i < length (workers p)"
    by (auto simp: process_def split: if_splits)
  with assms show ?thesis
    by (cases c)
      (auto simp: process_def recvDone_def recvTask_def park_def exitWorker_def
         leaveRecvq_def split: if_splits)
qed

lemma no_panic:
  assumes "pool_inv p"
  shows "step a p \<noteq> Panics e"
proof (cases a)
  case (CallSubmit t)
  with assms show ?thesis
    by (auto simp: Submit_def trySend_def pool_inv_def split: option.splits)
next
  case CallStop
  with assms show ?thesis
    by (auto simp: Stop_lock_def pool_inv_def)
next
  case StopResumes
  then show ?thesis by (auto simp: Stop_wait_def)
next
  case CancelParent
  then show ?thesis by simp
next
  case (Worker i c)
  show ?thesis
  proof (cases "i < length (workers p)")
    case False
    with Worker show ?thesis by (simp add: process_def)
  next
    case True
    from assms have wg: "workerWaitGroup p = live (workers p)" by (simp add: pool_inv_def)
    show ?thesis
    proof (cases "workers p ! i = Exited")
      case e: True
      with True Worker show ?thesis by (cases c) (simp_all add: process_def)
    next
      case False
      with True wg live_pos [of i "workers p"] have "0 < workerWaitGroup p" by simp
      with True Worker show ?thesis
        by (cases "(workers p ! i, c, i, p)" rule: processStep.cases)
          (auto simp: process_def recvDone_def recvTask_def park_def taskReturns_def
             exitWorker_def leaveRecvq_def split: list.splits option.splits)
    qed
  qed
qed


lemma demoUnhooked_reachable: "reachable demoUnhooked"
proof -
  have "run [CallSubmit 5, Worker 0 PickTask, Worker 0 TaskReturns] demoPool =
      Returns demoUnhooked"
    by (simp add: demoPool_def demoUnhooked_def Submit_def trySend_def readyReceiver_def process_def
        recvTask_def taskReturns_def)
  with demoPool_new show ?thesis by (rule reachableI)
qed

lemma demoLocked_lock: "Stop_lock demoPool = Returns (StopWaiting, demoLocked)"
  by (simp add: Stop_lock_def demoPool_def demoLocked_def demoWaiting_def)

lemma demoLocked_wind: "run (windDownAll demoLocked) demoLocked = Returns demoWaiting"
  by (simp add: windDownAll_def demoLocked_def demoWaiting_def process_def recvDone_def
      exitWorker_def)

lemma demoHooked_reachable: "reachable demoHooked"
proof -
  have "NewWorkerPool demoPlatform False 1 1 (Some 0) = Inr (demoPool\<lparr>afterTaskHook := Some 0\<rparr>)"
    by (simp add: NewWorkerPool_def makechan_def taskSize_def demoPlatform_def Let_def demoPool_def)
  moreover have "run [CallSubmit 5, CallSubmit 6, Worker 0 PickTask, Worker 0 TaskReturns,
      Worker 0 HookReturns] (demoPool\<lparr>afterTaskHook := Some 0\<rparr>) = Returns demoHooked"
    by (simp add: demoPool_def demoHooked_def Submit_def trySend_def readyReceiver_def process_def recvTask_def
        taskReturns_def)
  ultimately show ?thesis by (rule reachableI)
qed

lemma demoBusy_run:
  "run [CallSubmit 5, Worker 0 PickTask, CallStop] demoPool = Returns demoBusy"
  by (simp add: demoPool_def demoBusy_def Submit_def trySend_def readyReceiver_def process_def recvTask_def
      Stop_lock_def)

lemma demoBusy_reachable: "reachable demoBusy"
  using demoPool_new demoBusy_run by (rule reachableI)

lemma demoCancelled_wind:
  "run (windDownAll (demoPool\<lparr>ctxDone := True\<rparr>)) (demoPool\<lparr>ctxDone := True\<rparr>) =
   Returns demoCancelled"
  by (simp add: windDownAll_def demoPool_def demoCancelled_def process_def recvDone_def
      exitWorker_def)

lemma demoTestPool_new: "NewWorkerPool demoPlatform False 1 10 None = Inr demoTestPool"
  by (simp add: NewWorkerPool_def makechan_def taskSize_def demoPlatform_def Let_def demoTestPool_def)

lemma demoLost_run:
  "run [CallSubmit 7, CallStop, Worker 0 PickDone, StopResumes] demoTestPool = Returns demoLost"
  by (simp add: demoTestPool_def demoLost_def Submit_def trySend_def readyReceiver_def Stop_lock_def
      Stop_wait_def process_def recvDone_def exitWorker_def)

section \<open>The claims\<close>

subsection \<open>Submit after Stop\<close>

text \<open>
  Claim C1. After a call of Stop has returned, every later call of Submit returns
  \<open>ErrPoolStopped\<close> and does not enqueue the task. A call of Stop returns either from
  its wait (\<open>Stop_wait\<close>, the first effective call) or at once because the pool was
  already stopped (\<open>Stop_lock\<close> with \<open>StopReturned\<close>); \<open>p1\<close> is the state it
  leaves. Whatever the other goroutines do afterwards (the execution \<open>as\<close>), Submit
  is not suspended, returns \<open>ErrPoolStopped\<close>, and leaves the state, hence the queue,
  exactly as it found it.
\<close>

theorem C1_submit_after_stop:
  assumes "reachable p"
    and "Stop_wait p = Returns (r, p1) \<or> Stop_lock p = Returns (StopReturned r, p1)"
    and "run as p1 = Returns p2"
  shows "Submit task p2 = Returns (Some ErrPoolStopped, p2)"
proof -
  from reachable_inv [OF assms(1)] assms(2) have "isStopped p1 \<and> \<not> mu p1"
    by (auto simp: Stop_wait_def Stop_lock_def pool_inv_def split: if_splits)
  with run_stop_returned [OF assms(3)] have "isStopped p2 \<and> \<not> mu p2" by simp
  then show ?thesis by (simp add: Submit_def)
qed

theorem C1_witness:
  "reachable demoWaiting \<and>
   Stop_wait demoWaiting = Returns (None, demoStopped) \<and>
   run [CallStop, CallSubmit 3] demoStopped =
     Returns (demoStopped\<lparr>history := [Submitted 3 (Some ErrPoolStopped)]\<rparr>) \<and>
   Submit 7 (demoStopped\<lparr>history := [Submitted 3 (Some ErrPoolStopped)]\<rparr>) =
     Returns (Some ErrPoolStopped, demoStopped\<lparr>history := [Submitted 3 (Some ErrPoolStopped)]\<rparr>)"
  using C1_submit_after_stop [OF demoWaiting_reachable disjI1 [OF demoStopped_wait] demoStopped_run, of 7]
    demoWaiting_reachable demoStopped_wait demoStopped_run
  by simp

subsection \<open>Backpressure\<close>




subsection \<open>Stop waits for the workers\<close>

text \<open>
  Claim C3. For a pool constructed with \<open>numOfWorkers = n\<close>, in every state of every
  execution: the pool has \<open>n\<close> workers (none for a negative \<open>n\<close>); while one of them
  has not exited, the waiting Stop cannot return; when it returns, every worker has
  exited; a whole call of Stop on a pool that was not stopped returns only with every
  worker exited; and in every state in which the pool is stopped and no Stop is waiting
  (the first Stop has returned), every worker has exited.
\<close>

theorem C3_stop_waits_for_workers:
  assumes "NewWorkerPool pf ctx n q h = Inr p0" and "run as p0 = Returns p"
  shows "length (workers p) = nat (sint n) \<and>
         (\<not> allExited p \<longrightarrow> Stop_wait p = Blocked \<and> step StopResumes p = Blocked) \<and>
         (\<forall>r p'. Stop_wait p = Returns (r, p') \<longrightarrow> allExited p' \<and> workers p' = workers p) \<and>
         (\<forall>r p'. \<not> isStopped p \<and> Stop p = Returns (r, p') \<longrightarrow> allExited p') \<and>
         (isStopped p \<and> \<not> mu p \<longrightarrow> allExited p)"
proof -
  have "reachable p" using assms by (rule reachableI)
  then have I: "pool_inv p" by (rule reachable_inv)
  have L: "length (workers p) = nat (sint n)"
    using run_frame [OF assms(2)] NewWorkerPool_fields [OF assms(1)] by simp
  from I have W: "workerWaitGroup p = 0 \<longleftrightarrow> allExited p"
    by (simp add: pool_inv_def live_zero_iff allExited_def)
  from W have A: "\<not> allExited p \<longrightarrow> Stop_wait p = Blocked \<and> step StopResumes p = Blocked"
    by (simp add: Stop_wait_def)
  from W have B: "\<forall>r p'. Stop_wait p = Returns (r, p') \<longrightarrow> allExited p' \<and> workers p' = workers p"
    by (auto simp: Stop_wait_def allExited_def split: if_splits)
  from W have C: "\<forall>r p'. \<not> isStopped p \<and> Stop p = Returns (r, p') \<longrightarrow> allExited p'"
    by (auto simp: Stop_def Stop_lock_def Stop_wait_def allExited_def split: if_splits)
  from I W have D: "isStopped p \<and> \<not> mu p \<longrightarrow> allExited p"
    by (auto simp: pool_inv_def)
  from L A B C D show ?thesis by blast
qed

theorem C3_witness:
  "NewWorkerPool demoPlatform False 1 1 None = Inr demoPool \<and>
   run [CallStop, Worker 0 PickDone] demoPool = Returns demoWaiting \<and>
   length (workers demoWaiting) = 1 \<and>
   Stop_wait demoWaiting = Returns (None, demoStopped) \<and> allExited demoStopped \<and>
   run [CallSubmit 5, Worker 0 PickTask, CallStop] demoPool = Returns demoBusy \<and>
   \<not> allExited demoBusy \<and> Stop_wait demoBusy = Blocked \<and>
   step StopResumes demoBusy = Blocked"
proof -
  have n: "\<not> allExited demoBusy" by (simp add: demoBusy_def allExited_def)
  from C3_stop_waits_for_workers [OF demoPool_new demoWaiting_run] demoStopped_wait
  have 1: "length (workers demoWaiting) = 1 \<and> allExited demoStopped" by simp
  from C3_stop_waits_for_workers [OF demoPool_new demoBusy_run] n
  have 2: "Stop_wait demoBusy = Blocked \<and> step StopResumes demoBusy = Blocked" by blast
  from 1 2 n demoPool_new demoWaiting_run demoStopped_wait demoBusy_run show ?thesis
    by simp
qed

subsection \<open>Accepted tasks\<close>

text \<open>
  Claim C4 says that every task that Submit accepted is eventually run. The comment on
  \<open>Stop\<close> and the test \<open>TestStopWaitsForCompletion\<close> say the same of the tasks in the
  queue when Stop is called. The code does not do it. The execution below is that
  test: a pool with one worker and capacity ten, \<open>Submit(7)\<close> returns \<open>nil\<close>, then
  \<open>Stop()\<close>; in its \<open>select\<close> the worker finds both \<open>ctx.Done()\<close> and the task ready
  and takes \<open>ctx.Done()\<close>. Stop returns, task 7 is still in the queue, every worker has
  exited, and in no continuation is the task ever run or removed.
\<close>

theorem C4_accepted_task_lost:
  "NewWorkerPool demoPlatform False 1 10 None = Inr demoTestPool \<and>
   run [CallSubmit 7, CallStop, Worker 0 PickDone, StopResumes] demoTestPool = Returns demoLost \<and>
   accepted (history demoLost) = [7] \<and> buf (taskQueue demoLost) = [7] \<and>
   allExited demoLost \<and> returned (history demoLost) = [] \<and>
   (\<forall>as p. run as demoLost = Returns p \<longrightarrow>
      allExited p \<and> accepted (history p) = [7] \<and> returned (history p) = [] \<and>
      buf (taskQueue p) = [7])"
proof -
  have e: "allExited demoLost" "isStopped demoLost" "\<not> mu demoLost"
    by (simp_all add: demoLost_def allExited_def)
  have "\<forall>as p. run as demoLost = Returns p \<longrightarrow>
      allExited p \<and> accepted (history p) = [7] \<and> returned (history p) = [] \<and>
      buf (taskQueue p) = [7]"
  proof (intro allI impI)
    fix as p
    assume r: "run as demoLost = Returns p"
    from run_inert [OF e(2,3,1) r] e(1)
    show "allExited p \<and> accepted (history p) = [7] \<and> returned (history p) = [] \<and>
      buf (taskQueue p) = [7]"
      by (simp add: demoLost_def allExited_def)
  qed
  with e demoTestPool_new demoLost_run show ?thesis
    by (simp add: demoLost_def)
qed

theorem C4_witness:
  "run [CallSubmit 9, CallStop] demoLost =
     Returns (demoLost\<lparr>history := [Submitted 7 None, Submitted 9 (Some ErrPoolStopped)]\<rparr>) \<and>
   returned [Submitted 7 None, Submitted 9 (Some ErrPoolStopped)] = [] \<and>
   accepted [Submitted 7 None, Submitted 9 (Some ErrPoolStopped)] = [7]"
proof -
  have r: "run [CallSubmit 9, CallStop] demoLost =
     Returns (demoLost\<lparr>history := [Submitted 7 None, Submitted 9 (Some ErrPoolStopped)]\<rparr>)"
    by (simp add: demoLost_def Submit_def Stop_lock_def)
  from C4_accepted_task_lost r show ?thesis by auto
qed

subsection \<open>Construction\<close>




subsection \<open>Stop is idempotent\<close>

text \<open>
  Claim C6. Stop has no error result: every value it returns is \<open>nil\<close>. Once a call of
  Stop has returned (leaving \<open>p1\<close>), a further call returns at once with \<open>nil\<close> and
  leaves the state unchanged, and so does any number \<open>k\<close> of further calls: one call
  and \<open>1 + k\<close> calls leave the same state. The first call on a pool that is not
  stopped takes the lock, and there is a schedule of the workers (each has its current
  task and hook return and then takes the \<open>ctx.Done()\<close> case) after which its wait
  returns \<open>nil\<close>: the call is never stuck for a reason of the pool's own. (A call made
  while the first one is still waiting for the workers is suspended on the lock until
  the first returns; that is the subject of claim C9.)
\<close>

theorem C6_stop_idempotent:
  assumes "reachable p"
  shows "(\<forall>r p1. Stop_wait p = Returns (r, p1) \<or> Stop_lock p = Returns (StopReturned r, p1) \<longrightarrow>
            r = None \<and> Stop p1 = Returns (None, p1) \<and>
            (\<forall>k. run (replicate k CallStop) p1 = Returns p1)) \<and>
         (\<not> isStopped p \<longrightarrow>
            (\<exists>q q1 q2. Stop_lock p = Returns (StopWaiting, q) \<and>
               run (windDownAll q) q = Returns q1 \<and> Stop_wait q1 = Returns (None, q2)))"
proof -
  from reachable_inv [OF assms] have I: "pool_inv p" .
  have A: "\<forall>r p1. Stop_wait p = Returns (r, p1) \<or> Stop_lock p = Returns (StopReturned r, p1) \<longrightarrow>
            r = None \<and> Stop p1 = Returns (None, p1) \<and>
            (\<forall>k. run (replicate k CallStop) p1 = Returns p1)"
  proof (intro allI impI)
    fix r p1
    assume h: "Stop_wait p = Returns (r, p1) \<or> Stop_lock p = Returns (StopReturned r, p1)"
    with I have S: "isStopped p1 \<and> \<not> mu p1" and r: "r = None"
      by (auto simp: Stop_wait_def Stop_lock_def pool_inv_def split: if_splits)
    from S have 1: "Stop p1 = Returns (None, p1)"
      by (simp add: Stop_def Stop_lock_def)
    from S have s: "step CallStop p1 = Returns p1"
      by (simp add: Stop_lock_def)
    have "\<forall>k. run (replicate k CallStop) p1 = Returns p1"
    proof
      fix k
      from s show "run (replicate k CallStop) p1 = Returns p1"
        by (induction k) simp_all
    qed
    with r 1 show "r = None \<and> Stop p1 = Returns (None, p1) \<and>
            (\<forall>k. run (replicate k CallStop) p1 = Returns p1)"
      by simp
  qed
  have B: "\<not> isStopped p \<longrightarrow>
            (\<exists>q q1 q2. Stop_lock p = Returns (StopWaiting, q) \<and>
               run (windDownAll q) q = Returns q1 \<and> Stop_wait q1 = Returns (None, q2))"
  proof
    assume n: "\<not> isStopped p"
    with I obtain q where q: "Stop_lock p = Returns (StopWaiting, q)"
      by (auto simp: Stop_lock_def pool_inv_def)
    with I have iq: "pool_inv q" by (rule Stop_lock_inv)
    from q n I have cq: "ctxDone q" "mu q"
      by (auto simp: Stop_lock_def pool_inv_def split: if_splits)
    from windDownAll_run [OF iq cq(1)] obtain q1 where
      w: "run (windDownAll q) q = Returns q1" and z: "workerWaitGroup q1 = 0"
      and c: "sameControl q q1"
      by auto
    from c cq(2) z have "Stop_wait q1 = Returns (None, q1\<lparr>mu := False\<rparr>)"
      by (simp add: Stop_wait_def sameControl_def)
    with q w show "\<exists>q q1 q2. Stop_lock p = Returns (StopWaiting, q) \<and>
               run (windDownAll q) q = Returns q1 \<and> Stop_wait q1 = Returns (None, q2)"
      by blast
  qed
  from A B show ?thesis by blast
qed

theorem C6_witness:
  "reachable demoWaiting \<and>
   Stop_wait demoWaiting = Returns (None, demoStopped) \<and>
   Stop demoStopped = Returns (None, demoStopped) \<and>
   run (replicate 3 CallStop) demoStopped = Returns demoStopped \<and>
   reachable demoPool \<and> \<not> isStopped demoPool \<and>
   Stop_lock demoPool = Returns (StopWaiting, demoLocked) \<and>
   run (windDownAll demoLocked) demoLocked = Returns demoWaiting"
proof -
  have n: "\<not> isStopped demoPool" by (simp add: demoPool_def)
  from C6_stop_idempotent [OF demoWaiting_reachable] demoStopped_wait
  have 1: "Stop demoStopped = Returns (None, demoStopped) \<and>
      run (replicate 3 CallStop) demoStopped = Returns demoStopped"
    by blast
  from C6_stop_idempotent [OF demoPool_reachable] n obtain q q1 q2 where
    2: "Stop_lock demoPool = Returns (StopWaiting, q)"
    and 3: "run (windDownAll q) q = Returns q1" and 4: "Stop_wait q1 = Returns (None, q2)"
    by blast
  from 2 demoLocked_lock have q: "q = demoLocked" by simp
  with 3 demoLocked_wind have "q1 = demoWaiting" by simp
  with 1 2 3 q n demoWaiting_reachable demoStopped_wait demoPool_reachable show ?thesis
    by simp
qed

subsection \<open>The stopped flag\<close>

text \<open>
  Claim C7. The flag \<open>isStopped\<close> is false in the pool that \<open>NewWorkerPool\<close> returns.
  Along every execution from there the flag changes its value at most once: \<open>flips\<close>
  counts the steps at which it changes, and the count is one if the final state is
  stopped and zero otherwise. No step sets it back from true to false, and the only
  step that changes it is a call of Stop.
\<close>

theorem C7_stopped_monotonic:
  assumes "NewWorkerPool pf ctx n q h = Inr p0" and "run as p0 = Returns p"
  shows "\<not> isStopped p0 \<and>
         flips as p0 = (if isStopped p then 1 else 0) \<and>
         (\<forall>a p'. step a p = Returns p' \<and> isStopped p \<longrightarrow> isStopped p') \<and>
         (\<forall>a p'. step a p = Returns p' \<and> isStopped p' \<noteq> isStopped p \<longrightarrow> a = CallStop)"
  using NewWorkerPool_fields [OF assms(1)] run_flips [OF assms(2)] step_flag
  by auto

theorem C7_witness:
  "NewWorkerPool demoPlatform False 1 1 None = Inr demoPool \<and>
   run [CallStop, Worker 0 PickDone] demoPool = Returns demoWaiting \<and>
   \<not> isStopped demoPool \<and> isStopped demoWaiting \<and>
   flips [CallStop, Worker 0 PickDone] demoPool = 1"
  using C7_stopped_monotonic [OF demoPool_new demoWaiting_run] demoPool_new demoWaiting_run
  by (simp add: demoWaiting_def)

subsection \<open>The completion hook\<close>

text \<open>
  Claim C8. In the history of every reachable pool: with a hook set, every
  \<open>TaskReturned\<close> event is followed at once by the \<open>HookCalled\<close> event of the same
  worker and task, and there is no other \<open>HookCalled\<close> event (\<open>hookFollows\<close>), so the
  hook calls are the tasks that were taken from the queue and ran to their end, one
  call each, in the same order; with no hook set there is no hook call at all. The
  tasks of the hook calls are among the accepted submissions, counted with
  multiplicity, so there is no hook call for a task that Submit only ever rejected.
\<close>

theorem C8_hook_once_per_task:
  assumes "reachable p"
  shows "hookFollows (afterTaskHook p \<noteq> None) (history p) \<and>
         hooked (history p) = (if afterTaskHook p = None then [] else returned (history p)) \<and>
         mset (hooked (history p)) \<subseteq># mset (accepted (history p)) \<and>
         (\<forall>task. task \<notin> set (accepted (history p)) \<longrightarrow> task \<notin> set (hooked (history p)))"
proof -
  from reachable_hist [OF assms] have
    A: "mset (accepted (history p)) =
       mset (buf (taskQueue p)) + mset (running (workers p)) + mset (returned (history p))"
    and F: "hookFollows (afterTaskHook p \<noteq> None) (history p)"
    and H: "hooked (history p) = (if afterTaskHook p = None then [] else returned (history p))"
    by (simp_all add: hist_inv_def)
  from A have "mset (returned (history p)) \<subseteq># mset (accepted (history p))" by simp
  with H have S: "mset (hooked (history p)) \<subseteq># mset (accepted (history p))" by simp
  from S have "set (hooked (history p)) \<subseteq> set (accepted (history p))"
    by (metis set_mset_mono set_mset_mset)
  with F H S show ?thesis by blast
qed

theorem C8_witness:
  "reachable demoHooked \<and>
   accepted (history demoHooked) = [5] \<and>
   returned (history demoHooked) = [5] \<and>
   hooked (history demoHooked) = [5] \<and>
   hookFollows True (history demoHooked) \<and>
   6 \<notin> set (hooked (history demoHooked)) \<and>
   reachable demoUnhooked \<and> afterTaskHook demoUnhooked = None \<and>
   returned (history demoUnhooked) = [5] \<and> hooked (history demoUnhooked) = []"
  using C8_hook_once_per_task [OF demoHooked_reachable] demoHooked_reachable
    C8_hook_once_per_task [OF demoUnhooked_reachable] demoUnhooked_reachable
  by (simp add: demoHooked_def demoUnhooked_def demoPool_def)

subsection \<open>What suspends the callers\<close>

text \<open>
  Claim C9, as stated: Submit and Stop suspend their caller only to take the lock, whose
  critical sections are short, so Submit always returns promptly. \<open>Stop\<close> holds the
  write lock across \<open>workerWaitGroup.Wait()\<close>. In the state below the worker is inside
  task 5 and Stop waits for it: Stop is suspended in its wait, not on the lock, and a
  call of Submit is suspended on the lock for as long as task 5 runs.
\<close>

theorem C9_counterexample:
  "reachable demoBusy \<and> Submit 7 demoBusy = Blocked \<and>
   step (CallSubmit 7) demoBusy = Blocked \<and> Stop_wait demoBusy = Blocked \<and>
   step StopResumes demoBusy = Blocked"
  using demoBusy_reachable
  by (simp add: demoBusy_def Submit_def Stop_wait_def)

text \<open>
  Claim C9, amended. On every reachable pool Submit never panics and never waits for
  room in the queue: it is suspended exactly while a call of Stop holds the lock, and
  returns at once otherwise. The same holds for taking the lock in Stop. The lock is
  held only by the first effective call of Stop, across its wait for the workers: no
  step but the return of that call releases it, and that call cannot return while a
  worker has not exited. When it has returned, Submit returns \<open>ErrPoolStopped\<close>.
\<close>

theorem C9_submit_waits_only_for_stop:
  assumes "reachable p"
  shows "(Submit task p = Blocked \<longleftrightarrow> mu p) \<and>
         (\<not> mu p \<longrightarrow> (\<exists>r p'. Submit task p = Returns (r, p'))) \<and>
         (Stop_lock p = Blocked \<longleftrightarrow> mu p) \<and>
         (mu p \<longrightarrow> isStopped p) \<and>
         (mu p \<and> \<not> allExited p \<longrightarrow> Stop_wait p = Blocked) \<and>
         (\<forall>a p'. mu p \<and> step a p = Returns p' \<and> a \<noteq> StopResumes \<longrightarrow> mu p') \<and>
         (\<forall>r p'. Stop_wait p = Returns (r, p') \<longrightarrow>
            allExited p' \<and> Submit task p' = Returns (Some ErrPoolStopped, p'))"
proof -
  from reachable_inv [OF assms] have I: "pool_inv p" .
  then have W: "workerWaitGroup p = 0 \<longleftrightarrow> allExited p"
    by (simp add: pool_inv_def live_zero_iff allExited_def)
  from I have A: "Submit task p = Blocked \<longleftrightarrow> mu p"
    by (auto simp: Submit_def trySend_def pool_inv_def split: option.splits)
  from I have B: "\<not> mu p \<longrightarrow> (\<exists>r p'. Submit task p = Returns (r, p'))"
    by (auto simp: Submit_def trySend_def pool_inv_def split: option.splits)
  from I have C: "Stop_lock p = Blocked \<longleftrightarrow> mu p"
    by (auto simp: Stop_lock_def pool_inv_def)
  from I have D: "mu p \<longrightarrow> isStopped p" by (simp add: pool_inv_def)
  from W have E: "mu p \<and> \<not> allExited p \<longrightarrow> Stop_wait p = Blocked"
    by (simp add: Stop_wait_def)
  have F: "\<forall>a p'. mu p \<and> step a p = Returns p' \<and> a \<noteq> StopResumes \<longrightarrow> mu p'"
  proof (intro allI impI)
    fix a p'
    assume h: "mu p \<and> step a p = Returns p' \<and> a \<noteq> StopResumes"
    then show "mu p'"
      by (cases a)
        (auto simp: Stop_lock_def dest: Submit_frame process_frame
           split: outcome.splits if_splits)
  qed
  from I W have G: "\<forall>r p'. Stop_wait p = Returns (r, p') \<longrightarrow>
            allExited p' \<and> Submit task p' = Returns (Some ErrPoolStopped, p')"
    by (auto simp: Stop_wait_def Submit_def pool_inv_def allExited_def split: if_splits)
  from A B C D E F G show ?thesis by blast
qed

theorem C9_witness:
  "reachable demoBusy \<and> mu demoBusy \<and> Submit 7 demoBusy = Blocked \<and>
   \<not> allExited demoBusy \<and> Stop_wait demoBusy = Blocked \<and>
   Stop_lock demoBusy = Blocked \<and>
   reachable demoWaiting \<and> Stop_wait demoWaiting = Returns (None, demoStopped) \<and>
   Submit 7 demoStopped = Returns (Some ErrPoolStopped, demoStopped) \<and>
   reachable demoPool \<and> \<not> mu demoPool \<and> Submit 7 demoPool \<noteq> Blocked"
proof -
  have m: "mu demoBusy" "\<not> allExited demoBusy" "\<not> mu demoPool"
    by (simp_all add: demoBusy_def demoPool_def allExited_def)
  from C9_submit_waits_only_for_stop [OF demoBusy_reachable, of 7] m
  have 1: "Submit 7 demoBusy = Blocked \<and> Stop_wait demoBusy = Blocked \<and>
      Stop_lock demoBusy = Blocked"
    by blast
  from C9_submit_waits_only_for_stop [OF demoWaiting_reachable, of 7] demoStopped_wait
  have 2: "Submit 7 demoStopped = Returns (Some ErrPoolStopped, demoStopped)" by blast
  from C9_submit_waits_only_for_stop [OF demoPool_reachable, of 7] m
  have 3: "Submit 7 demoPool \<noteq> Blocked" by blast
  from 1 2 3 m demoBusy_reachable demoWaiting_reachable demoStopped_wait demoPool_reachable
  show ?thesis by simp
qed

subsection \<open>Cancelling the parent context\<close>

text \<open>
  Claim C10. A step changes \<open>isStopped\<close> only if it is a call of Stop. On a reachable
  pool that is not stopped, the cancellation of the parent context leaves \<open>isStopped\<close>
  false. From then on no worker can block in its \<open>select\<close>
  again, a worker that is at its \<open>select\<close> with the queue empty can only exit, and
  the workers can all leave: the schedule \<open>windDownAll\<close> ends with every
  worker exited and the pool still not stopped. In every state reached from there, every
  worker is still exited and no further task has returned, and yet, while the pool is
  not stopped, Submit with room in the queue appends the task and returns \<open>nil\<close>.
\<close>

theorem C10_parent_cancel_keeps_pool_open:
  assumes "reachable p" and "\<not> isStopped p"
  shows "(\<forall>a p'. step a p = Returns p' \<and> isStopped p' \<noteq> isStopped p \<longrightarrow> a = CallStop) \<and>
    (\<exists>p1 p2.
     step CancelParent p = Returns p1 \<and> \<not> isStopped p1 \<and> (\<forall>i. process i Park p1 = Blocked) \<and>
     (\<forall>i c p'. buf (taskQueue p1) = [] \<and> (workers p1 ! i = Selecting \<or> workers p1 ! i = Parked) \<and>
        process i c p1 = Returns p' \<longrightarrow> workers p' ! i = Exited) \<and>
     run (windDownAll p1) p1 = Returns p2 \<and> allExited p2 \<and> \<not> isStopped p2 \<and>
     (\<forall>as p3. run as p2 = Returns p3 \<longrightarrow>
        allExited p3 \<and> returned (history p3) = returned (history p2) \<and>
        (\<forall>task. \<not> isStopped p3 \<and> length (buf (taskQueue p3)) < capacity (taskQueue p3) \<longrightarrow>
           Submit task p3 =
             Returns (None, p3\<lparr>taskQueue := (taskQueue p3)\<lparr>buf := buf (taskQueue p3) @ [task]\<rparr>\<rparr>))))"
proof -
  let ?p1 = "p\<lparr>ctxDone := True\<rparr>"
  have s: "step CancelParent p = Returns ?p1" by simp
  have r1: "reachable ?p1"
    using assms(1) by (rule reachable_run [where as = "[CancelParent]"]) simp
  from reachable_inv [OF r1] have "pool_inv ?p1" .
  from windDownAll_run [OF this] obtain p2 where
    w: "run (windDownAll ?p1) ?p1 = Returns p2" and e: "allExited p2"
    and c: "sameControl ?p1 p2"
    by auto
  from c assms(2) have n2: "\<not> isStopped p2" by (simp add: sameControl_def)
  from r1 w have r2: "reachable p2" by (rule reachable_run)
  have fut: "\<forall>as p3. run as p2 = Returns p3 \<longrightarrow>
        allExited p3 \<and> returned (history p3) = returned (history p2) \<and>
        (\<forall>task. \<not> isStopped p3 \<and> length (buf (taskQueue p3)) < capacity (taskQueue p3) \<longrightarrow>
           Submit task p3 =
             Returns (None, p3\<lparr>taskQueue := (taskQueue p3)\<lparr>buf := buf (taskQueue p3) @ [task]\<rparr>\<rparr>))"
  proof (intro allI impI)
    fix as p3
    assume run3: "run as p2 = Returns p3"
    from run_allExited [OF reachable_inv [OF r2] e run3]
    have 1: "allExited p3 \<and> returned (history p3) = returned (history p2)" by simp
    from reachable_run [OF r2 run3] have i3: "pool_inv p3" by (rule reachable_inv)
    from 1 have "allExited p3" by simp
    with i3 have "recvq (taskQueue p3) = []" by (rule allExited_recvq)
    then have "readyReceiver p3 = None" by (simp add: readyReceiver_def)
    with i3 have "\<forall>task. \<not> isStopped p3 \<and> length (buf (taskQueue p3)) < capacity (taskQueue p3) \<longrightarrow>
           Submit task p3 =
             Returns (None, p3\<lparr>taskQueue := (taskQueue p3)\<lparr>buf := buf (taskQueue p3) @ [task]\<rparr>\<rparr>)"
      by (auto simp: pool_inv_def Submit_def trySend_def)
    with 1 show "allExited p3 \<and> returned (history p3) = returned (history p2) \<and>
        (\<forall>task. \<not> isStopped p3 \<and> length (buf (taskQueue p3)) < capacity (taskQueue p3) \<longrightarrow>
           Submit task p3 =
             Returns (None, p3\<lparr>taskQueue := (taskQueue p3)\<lparr>buf := buf (taskQueue p3) @ [task]\<rparr>\<rparr>))"
      by blast
  qed
  have pk: "\<forall>i. process i Park ?p1 = Blocked" by (simp add: park_ctxDone)
  have ex: "\<forall>i c p'. buf (taskQueue ?p1) = [] \<and>
        (workers ?p1 ! i = Selecting \<or> workers ?p1 ! i = Parked) \<and>
        process i c ?p1 = Returns p' \<longrightarrow> workers p' ! i = Exited"
  proof (intro allI impI)
    fix i c p'
    assume h: "buf (taskQueue ?p1) = [] \<and>
        (workers ?p1 ! i = Selecting \<or> workers ?p1 ! i = Parked) \<and>
        process i c ?p1 = Returns p'"
    have "ctxDone ?p1" by simp
    from this h [THEN conjunct1] h [THEN conjunct2, THEN conjunct1]
      h [THEN conjunct2, THEN conjunct2]
    show "workers p' ! i = Exited" by (rule select_ctxDone)
  qed
  have n1: "\<not> isStopped ?p1" using assms(2) by simp
  have only: "\<forall>a p'. step a p = Returns p' \<and> isStopped p' \<noteq> isStopped p \<longrightarrow> a = CallStop"
    using step_flag by blast
  from s n1 pk ex w e n2 fut
  have "\<exists>p1 p2.
     step CancelParent p = Returns p1 \<and> \<not> isStopped p1 \<and> (\<forall>i. process i Park p1 = Blocked) \<and>
     (\<forall>i c p'. buf (taskQueue p1) = [] \<and> (workers p1 ! i = Selecting \<or> workers p1 ! i = Parked) \<and>
        process i c p1 = Returns p' \<longrightarrow> workers p' ! i = Exited) \<and>
     run (windDownAll p1) p1 = Returns p2 \<and> allExited p2 \<and> \<not> isStopped p2 \<and>
     (\<forall>as p3. run as p2 = Returns p3 \<longrightarrow>
        allExited p3 \<and> returned (history p3) = returned (history p2) \<and>
        (\<forall>task. \<not> isStopped p3 \<and> length (buf (taskQueue p3)) < capacity (taskQueue p3) \<longrightarrow>
           Submit task p3 =
             Returns (None, p3\<lparr>taskQueue := (taskQueue p3)\<lparr>buf := buf (taskQueue p3) @ [task]\<rparr>\<rparr>)))"
    by blast
  with only show ?thesis by blast
qed

theorem C10_witness:
  "reachable demoPool \<and> \<not> isStopped demoPool \<and>
   step CancelParent demoPool = Returns (demoPool\<lparr>ctxDone := True\<rparr>) \<and>
   run (windDownAll (demoPool\<lparr>ctxDone := True\<rparr>)) (demoPool\<lparr>ctxDone := True\<rparr>) =
     Returns demoCancelled \<and>
   allExited demoCancelled \<and> \<not> isStopped demoCancelled \<and>
   Submit 7 demoCancelled =
     Returns (None, demoCancelled\<lparr>taskQueue := \<lparr>buf = [7], capacity = 1, closed = False, recvq = []\<rparr>\<rparr>)"
proof -
  have n: "\<not> isStopped demoPool" by (simp add: demoPool_def)
  from C10_parent_cancel_keeps_pool_open [OF demoPool_reachable n, THEN conjunct2]
  obtain p1 p2 where
    1: "step CancelParent demoPool = Returns p1"
    and 2: "run (windDownAll p1) p1 = Returns p2"
    and 3: "allExited p2" "\<not> isStopped p2"
    and 4: "\<forall>as p3. run as p2 = Returns p3 \<longrightarrow>
        allExited p3 \<and> returned (history p3) = returned (history p2) \<and>
        (\<forall>task. \<not> isStopped p3 \<and> length (buf (taskQueue p3)) < capacity (taskQueue p3) \<longrightarrow>
           Submit task p3 =
             Returns (None, p3\<lparr>taskQueue := (taskQueue p3)\<lparr>buf := buf (taskQueue p3) @ [task]\<rparr>\<rparr>))"
    by blast
  from 1 have p1: "p1 = demoPool\<lparr>ctxDone := True\<rparr>" by simp
  with 2 demoCancelled_wind have p2: "p2 = demoCancelled" by simp
  from 4 [rule_format, of "[]" p2] have
    "\<not> isStopped p2 \<and> length (buf (taskQueue p2)) < capacity (taskQueue p2) \<longrightarrow>
       Submit 7 p2 = Returns (None, p2\<lparr>taskQueue := (taskQueue p2)\<lparr>buf := buf (taskQueue p2) @ [7]\<rparr>\<rparr>)"
    by simp
  with p2 have "Submit 7 demoCancelled =
     Returns (None, demoCancelled\<lparr>taskQueue := \<lparr>buf = [7], capacity = 1, closed = False, recvq = []\<rparr>\<rparr>)"
    by (simp add: demoCancelled_def demoPool_def)
  with demoPool_reachable n 1 2 3 p1 p2 show ?thesis by simp
qed

end
